theory Spec2Isabelle
  imports Main "HOL-Library.Sublist"
begin

section \<open>Update-based Game of Life: the engine of script.js\<close>

text \<open>
  The engine keeps three module-level variables: \<open>dimensions\<close>, \<open>grid\<close> (an array of
  row arrays) and \<open>queue\<close> (an array of \<open>{x, y}\<close> objects), and a constant \<open>rules\<close>.
  The functions below take them as arguments and return the updated state.

  JavaScript numbers are modelled as \<open>int\<close> (all coordinates and counts of the engine are
  integers far below \<open>2^53\<close>). The values a grid cell or a rule entry can hold are
  collected in \<open>jsval\<close>: numbers, \<open>NaN\<close>, booleans (written by \<open>toggleCell\<close>) and
  \<open>undefined\<close> (read from a missing array index).
\<close>

subsection \<open>JavaScript values and operators\<close>

datatype jsval = Num int | NaN | Bool bool | Undefined

datatype error = TypeError

text \<open>Truthiness, as tested by \<open>oldState ? 1 : 0\<close> and by \<open>if (getCell(x, y))\<close>.\<close>

fun truthy :: "jsval \<Rightarrow> bool" where
  "truthy (Num n) = (n \<noteq> 0)"
| "truthy NaN = False"
| "truthy (Bool b) = b"
| "truthy Undefined = False"

text \<open>\<open>ToNumber\<close>; \<open>None\<close> stands for \<open>NaN\<close>.\<close>

fun to_number :: "jsval \<Rightarrow> int option" where
  "to_number (Num n) = Some n"
| "to_number NaN = None"
| "to_number (Bool b) = Some (if b then 1 else 0)"
| "to_number Undefined = None"

text \<open>The operator \<open>+\<close> on these values (none of them is a string).\<close>

definition js_add :: "jsval \<Rightarrow> jsval \<Rightarrow> jsval" where
  "js_add a b =
     (case to_number a of
        None \<Rightarrow> NaN
      | Some m \<Rightarrow> (case to_number b of None \<Rightarrow> NaN | Some n \<Rightarrow> Num (m + n)))"

text \<open>
  Loose equality \<open>==\<close>: \<open>undefined\<close> equals only itself, \<open>NaN\<close> equals nothing, a
  boolean is compared through its number.
\<close>

definition loose_eq :: "jsval \<Rightarrow> jsval \<Rightarrow> bool" where
  "loose_eq a b =
     (if a = Undefined \<or> b = Undefined then a = b
      else (case to_number a of
              None \<Rightarrow> False
            | Some m \<Rightarrow> (case to_number b of None \<Rightarrow> False | Some n \<Rightarrow> m = n)))"

definition js_not :: "jsval \<Rightarrow> jsval" where
  "js_not v = Bool (\<not> truthy v)"

text \<open>
  The remainder operator \<open>%\<close> on integers truncates towards zero: the result has the
  sign of the dividend. For a zero divisor JavaScript yields \<open>NaN\<close>, which \<open>int\<close>
  does not hold: \<open>js_rem\<close> is only meaningful for a non-zero divisor. \<open>getCell\<close>
  below tests for a zero dimension before it wraps, and with a zero dimension no cell
  ever changes (lemma \<open>zero_dimension_no_change\<close>), so the coordinates that
  \<open>getNeighborCells\<close> computes there never reach the queue.
\<close>

definition js_rem :: "int \<Rightarrow> int \<Rightarrow> int" where
  "js_rem a b = sgn a * (\<bar>a\<bar> mod \<bar>b\<bar>)"

text \<open>Reading index \<open>i\<close> of an array; \<open>None\<close> is \<open>undefined\<close>.\<close>

definition js_index :: "'a list \<Rightarrow> int \<Rightarrow> 'a option" where
  "js_index xs i = (if 0 \<le> i \<and> i < int (length xs) then Some (xs ! nat i) else None)"

text \<open>
  Reading \<open>xs[k]\<close> when the key is itself a value: only an integer inside the array
  finds an element.
\<close>

definition js_lookup :: "jsval list \<Rightarrow> jsval \<Rightarrow> jsval" where
  "js_lookup xs k =
     (case k of
        Num n \<Rightarrow> (case js_index xs n of Some v \<Rightarrow> v | None \<Rightarrow> Undefined)
      | _ \<Rightarrow> Undefined)"

subsection \<open>Data\<close>

text \<open>A queue entry \<open>{"x": x, "y": y}\<close>.\<close>

datatype cell = Cell (cx: int) (cy: int)

record dims =
  width :: int
  height :: int

text \<open>
  \<open>grid\<close> is an array of references to row arrays. \<open>grid.slice()\<close> copies the outer
  array only, so rows are shared between \<open>grid\<close> and \<open>nextGrid\<close>; the store \<open>rows\<close>
  maps each reference to the row it denotes. A row is read and written at arbitrary
  integer keys (\<open>thisGrid[x][y] = state\<close>), a key never written reads as
  \<open>undefined\<close>: it is a function from keys to values.
\<close>

type_synonym ref = nat
type_synonym row = "int \<Rightarrow> jsval"

record state =
  rows :: "ref \<Rightarrow> row"
  grid :: "ref list"
  queue :: "cell list"

text \<open>The rule table of lines 28 to 31.\<close>

definition rules :: "jsval list list" where
  "rules =
     [[Num 0, Num 0, Num 0, Num 1, Num 0, Num 0, Num 0, Num 0, Num 0],
      [Num 0, Num 0, Num 1, Num 1, Num 0, Num 0, Num 0, Num 0, Num 0]]"

definition dimensions :: dims where
  "dimensions = \<lparr>width = 50, height = 50\<rparr>"

subsection \<open>Construction\<close>

text \<open>The inner loop of \<open>makeGrid\<close>: \<open>for (y; y < height; y++) row.push(0)\<close>.\<close>

function push_cells :: "int \<Rightarrow> int \<Rightarrow> jsval list \<Rightarrow> jsval list" where
  "push_cells y h row = (if y < h then push_cells (y + 1) h (row @ [Num 0]) else row)"
  by pat_completeness auto
termination
  by (relation "measure (\<lambda>(y, h, row). nat (h - y))") auto

declare push_cells.simps [simp del]

text \<open>The outer loop: \<open>for (x; x < width; x++) { row = ...; grid.push(row) }\<close>.\<close>

function push_rows :: "int \<Rightarrow> int \<Rightarrow> int \<Rightarrow> jsval list list \<Rightarrow> jsval list list" where
  "push_rows x w h g = (if x < w then push_rows (x + 1) w h (g @ [push_cells 0 h []]) else g)"
  by pat_completeness auto
termination
  by (relation "measure (\<lambda>(x, w, h, g). nat (w - x))") auto

declare push_rows.simps [simp del]

definition makeGrid :: "int \<Rightarrow> int \<Rightarrow> jsval list list" where
  "makeGrid w h = push_rows 0 w h []"

text \<open>
  A freshly built array of arrays placed in the store: row \<open>i\<close> becomes the object at
  reference \<open>i\<close>, every row a distinct object.
\<close>

definition row_of :: "jsval list \<Rightarrow> row" where
  "row_of xs = (\<lambda>j. case js_index xs j of Some v \<Rightarrow> v | None \<Rightarrow> Undefined)"

definition store_rows :: "jsval list list \<Rightarrow> ref \<Rightarrow> row" where
  "store_rows g = (\<lambda>r. if r < length g then row_of (g ! r) else (\<lambda>j. Undefined))"

text \<open>
  Lines 69 and 70: \<open>let grid = makeGrid(dimensions.width, dimensions.height); let queue = [];\<close>.
  No statement on this path throws; the result type is a sum only so that failure
  can be stated at all.
\<close>

definition initial_state :: "dims \<Rightarrow> error + state" where
  "initial_state d =
     (let g = makeGrid (width d) (height d)
      in Inr \<lparr>rows = store_rows g, grid = [0..<length g], queue = []\<rparr>)"

subsection \<open>Cell access\<close>

text \<open>The expression \<open>(c % dim + dim) % dim\<close> of \<open>getCellObj\<close> and \<open>getCell\<close>.\<close>

definition wrap :: "int \<Rightarrow> int \<Rightarrow> int" where
  "wrap c dim = js_rem (js_rem c dim + dim) dim"

definition getCellObj :: "dims \<Rightarrow> int \<Rightarrow> int \<Rightarrow> cell" where
  "getCellObj d x y = Cell (wrap x (width d)) (wrap y (height d))"

text \<open>
  \<open>grid[wrap x][wrap y]\<close>. With width 0 the first index is \<open>NaN\<close>, \<open>grid[NaN]\<close> is
  \<open>undefined\<close> and indexing it throws, as it does when the first index is outside
  \<open>grid\<close>. With height 0 the second index is \<open>NaN\<close>, a key no row holds.
\<close>

definition getCell :: "dims \<Rightarrow> state \<Rightarrow> int \<Rightarrow> int \<Rightarrow> error + jsval" where
  "getCell d s x y =
     (if width d = 0 then Inl TypeError
      else (case js_index (grid s) (wrap x (width d)) of
              None \<Rightarrow> Inl TypeError
            | Some r \<Rightarrow>
                Inr (if height d = 0 then Undefined else rows s r (wrap y (height d)))))"

text \<open>\<open>thisGrid[x][y] = state\<close>, with the indices as given.\<close>

definition setCellInGrid ::
  "(ref \<Rightarrow> row) \<Rightarrow> ref list \<Rightarrow> int \<Rightarrow> int \<Rightarrow> jsval \<Rightarrow> error + (ref \<Rightarrow> row)" where
  "setCellInGrid h thisGrid x y v =
     (case js_index thisGrid x of
        None \<Rightarrow> Inl TypeError
      | Some r \<Rightarrow> Inr (h(r := (h r)(y := v))))"

definition toggleCell :: "state \<Rightarrow> int \<Rightarrow> int \<Rightarrow> error + state" where
  "toggleCell s x y =
     (case js_index (grid s) x of
        None \<Rightarrow> Inl TypeError
      | Some r \<Rightarrow> Inr (s\<lparr>rows := (rows s)(r := (rows s r)(y := js_not (rows s r y)))\<rparr>))"

definition addCellToQueue :: "state \<Rightarrow> int \<Rightarrow> int \<Rightarrow> state" where
  "addCellToQueue s x y = s\<lparr>queue := queue s @ [Cell x y]\<rparr>"

subsection \<open>Neighbours\<close>

definition getNeighborCells :: "dims \<Rightarrow> int \<Rightarrow> int \<Rightarrow> cell list" where
  "getNeighborCells d x y =
     [getCellObj d (x + 1) y,
      getCellObj d (x + 1) (y + 1),
      getCellObj d x (y + 1),
      getCellObj d (x - 1) (y + 1),
      getCellObj d (x - 1) y,
      getCellObj d (x - 1) (y - 1),
      getCellObj d x (y - 1),
      getCellObj d (x + 1) (y - 1)]"

text \<open>\<open>Array.map\<close> with a callback that may throw: the first exception ends it.\<close>

fun map_cells :: "(cell \<Rightarrow> error + jsval) \<Rightarrow> cell list \<Rightarrow> error + jsval list" where
  "map_cells f [] = Inr []"
| "map_cells f (c # cs) =
     (case f c of
        Inl e \<Rightarrow> Inl e
      | Inr v \<Rightarrow> (case map_cells f cs of Inl e \<Rightarrow> Inl e | Inr vs \<Rightarrow> Inr (v # vs)))"

definition getNeighborStates :: "dims \<Rightarrow> state \<Rightarrow> int \<Rightarrow> int \<Rightarrow> error + jsval list" where
  "getNeighborStates d s x y =
     map_cells (\<lambda>c. getCell d s (cx c) (cy c)) (getNeighborCells d x y)"

text \<open>\<open>reduce((acc, curr) => acc += curr, 0)\<close>.\<close>

definition getNeighborCount :: "dims \<Rightarrow> state \<Rightarrow> int \<Rightarrow> int \<Rightarrow> error + jsval" where
  "getNeighborCount d s x y =
     (case getNeighborStates d s x y of
        Inl e \<Rightarrow> Inl e
      | Inr vs \<Rightarrow> Inr (foldl js_add (Num 0) vs))"

subsection \<open>One step\<close>

text \<open>
  The table lookup \<open>rules[oldState ? 1 : 0][n]\<close> of line 149. A table with no such
  row makes the second index throw.
\<close>

definition nextState :: "jsval list list \<Rightarrow> jsval \<Rightarrow> jsval \<Rightarrow> error + jsval" where
  "nextState rs oldState n =
     (case js_index rs (if truthy oldState then 1 else 0) of
        None \<Rightarrow> Inl TypeError
      | Some r \<Rightarrow> Inr (js_lookup r n))"

text \<open>
  \<open>cleanQueue\<close>: \<open>unique\<close> grows by every cell that no element of it matches in both
  \<open>x\<close> and \<open>y\<close>.
\<close>

definition cleanQueue :: "cell list \<Rightarrow> cell list" where
  "cleanQueue qu =
     foldl (\<lambda>unique c.
              if \<not> list_ex (\<lambda>e. cx e = cx c \<and> cy e = cy c) unique then unique @ [c]
              else unique)
       [] qu"

text \<open>
  The callback of \<open>queue.forEach\<close> in \<open>updateCells\<close>, for one queued cell. It reads
  through the global \<open>grid\<close> and writes through \<open>nextGrid\<close>; both name rows of the
  one store.
\<close>

definition visit ::
  "dims \<Rightarrow> jsval list list \<Rightarrow> ref list \<Rightarrow> state \<times> cell list \<Rightarrow> cell
     \<Rightarrow> error + (state \<times> cell list)" where
  "visit d rs nextGrid acc c =
     (case acc of (s, nextQueue) \<Rightarrow>
        (case getCell d s (cx c) (cy c) of
           Inl e \<Rightarrow> Inl e
         | Inr oldState \<Rightarrow>
             (case getNeighborCount d s (cx c) (cy c) of
                Inl e \<Rightarrow> Inl e
              | Inr n \<Rightarrow>
                  (case nextState rs oldState n of
                     Inl e \<Rightarrow> Inl e
                   | Inr newState \<Rightarrow>
                       if \<not> loose_eq newState oldState then
                         (case setCellInGrid (rows s) nextGrid (cx c) (cy c) newState of
                            Inl e \<Rightarrow> Inl e
                          | Inr h \<Rightarrow>
                              Inr (s\<lparr>rows := h\<rparr>,
                                   nextQueue @ getNeighborCells d (cx c) (cy c)))
                       else Inr (s, nextQueue)))))"

fun forEach ::
  "dims \<Rightarrow> jsval list list \<Rightarrow> ref list \<Rightarrow> state \<times> cell list \<Rightarrow> cell list
     \<Rightarrow> error + (state \<times> cell list)" where
  "forEach d rs nextGrid acc [] = Inr acc"
| "forEach d rs nextGrid acc (c # cs) =
     (case visit d rs nextGrid acc c of
        Inl e \<Rightarrow> Inl e
      | Inr acc' \<Rightarrow> forEach d rs nextGrid acc' cs)"

text \<open>\<open>grid.slice()\<close>: a new outer array holding the same row references.\<close>

definition slice :: "ref list \<Rightarrow> ref list" where
  "slice g = g"

definition updateCells :: "dims \<Rightarrow> jsval list list \<Rightarrow> state \<Rightarrow> error + state" where
  "updateCells d rs s =
     (let nextQueue = [];
          nextGrid = slice (grid s)
      in (case forEach d rs nextGrid (s, nextQueue) (queue s) of
            Inl e \<Rightarrow> Inl e
          | Inr (s', nextQueue') \<Rightarrow>
              Inr (s'\<lparr>queue := cleanQueue nextQueue', grid := nextGrid\<rparr>)))"

subsection \<open>Repeated steps and observations\<close>

text \<open>
  \<open>tick\<close> calls \<open>updateCells\<close>, then redraws; \<open>ticks n\<close> is \<open>n\<close> calls in a row, ended
  by the first exception.
\<close>

fun ticks :: "nat \<Rightarrow> dims \<Rightarrow> jsval list list \<Rightarrow> state \<Rightarrow> error + state" where
  "ticks 0 d rs s = Inr s"
| "ticks (Suc n) d rs s =
     (case updateCells d rs s of Inl e \<Rightarrow> Inl e | Inr s' \<Rightarrow> ticks n d rs s')"

text \<open>
  The \<open>mousedown\<close> listener of lines 60 to 67, with the cell coordinates already
  computed from the pointer: \<open>toggleCell\<close>, then \<open>addCellToQueue\<close>. A session is
  the initial state followed by a list of such clicks.
\<close>

definition mousedown :: "state \<Rightarrow> int \<Rightarrow> int \<Rightarrow> error + state" where
  "mousedown s x y =
     (case toggleCell s x y of Inl e \<Rightarrow> Inl e | Inr s' \<Rightarrow> Inr (addCellToQueue s' x y))"

fun clicks :: "state \<Rightarrow> cell list \<Rightarrow> error + state" where
  "clicks s [] = Inr s"
| "clicks s (c # cs) =
     (case mousedown s (cx c) (cy c) of Inl e \<Rightarrow> Inl e | Inr s' \<Rightarrow> clicks s' cs)"

definition session :: "dims \<Rightarrow> cell list \<Rightarrow> error + state" where
  "session d cs = (case initial_state d of Inl e \<Rightarrow> Inl e | Inr s \<Rightarrow> clicks s cs)"

text \<open>
  The coordinates \<open>drawCells\<close> scans, and the cells it fills (a read that throws
  counts as not alive).
\<close>

definition all_cells :: "dims \<Rightarrow> cell list" where
  "all_cells d =
     concat (map (\<lambda>x. map (\<lambda>y. Cell x y) [0..height d - 1]) [0..width d - 1])"

definition is_alive :: "dims \<Rightarrow> state \<Rightarrow> cell \<Rightarrow> bool" where
  "is_alive d s c =
     (case getCell d s (cx c) (cy c) of Inl e \<Rightarrow> False | Inr v \<Rightarrow> truthy v)"

definition alive_cells :: "dims \<Rightarrow> state \<Rightarrow> cell list" where
  "alive_cells d s = filter (is_alive d s) (all_cells d)"

definition in_range :: "dims \<Rightarrow> cell \<Rightarrow> bool" where
  "in_range d c \<longleftrightarrow> 0 \<le> cx c \<and> cx c < width d \<and> 0 \<le> cy c \<and> cy c < height d"

text \<open>
  The test \<open>newState != oldState\<close> of line 150 for cell \<open>c\<close>, evaluated in state \<open>s\<close>.
\<close>

definition changes :: "dims \<Rightarrow> jsval list list \<Rightarrow> state \<Rightarrow> cell \<Rightarrow> bool" where
  "changes d rs s c =
     (case getCell d s (cx c) (cy c) of
        Inl e \<Rightarrow> False
      | Inr oldState \<Rightarrow>
          (case getNeighborCount d s (cx c) (cy c) of
             Inl e \<Rightarrow> False
           | Inr n \<Rightarrow>
               (case nextState rs oldState n of
                  Inl e \<Rightarrow> False
                | Inr newState \<Rightarrow> \<not> loose_eq newState oldState)))"

text \<open>
  A grid as the data model describes it: a row for every column index below the width,
  and a dead or alive value (\<open>0\<close>, \<open>1\<close>, \<open>false\<close> or \<open>true\<close>) in every cell.
\<close>

definition cell_value :: "jsval \<Rightarrow> bool" where
  "cell_value v \<longleftrightarrow> v = Num 0 \<or> v = Num 1 \<or> v = Bool False \<or> v = Bool True"

definition grid_ok :: "dims \<Rightarrow> state \<Rightarrow> bool" where
  "grid_ok d s \<longleftrightarrow>
     list_all (\<lambda>c. case getCell d s (cx c) (cy c) of Inl e \<Rightarrow> False | Inr v \<Rightarrow> cell_value v)
       (all_cells d)"

text \<open>
  A state as the program builds it: positive dimensions, one row object per column,
  no row shared between two columns, every cell dead or alive.
\<close>

definition wf_state :: "dims \<Rightarrow> state \<Rightarrow> bool" where
  "wf_state d s \<longleftrightarrow>
     0 < width d \<and> 0 < height d \<and> int (length (grid s)) = width d \<and>
     distinct (grid s) \<and> grid_ok d s"

text \<open>
  The classical rule on an alive flag and a number of live neighbours.
\<close>

definition live_rule :: "bool \<Rightarrow> nat \<Rightarrow> bool" where
  "live_rule a n = (if a then n = 2 \<or> n = 3 else n = 3)"

definition live_neighbours :: "dims \<Rightarrow> state \<Rightarrow> cell \<Rightarrow> nat" where
  "live_neighbours d s c = length (filter (is_alive d s) (getNeighborCells d (cx c) (cy c)))"

text \<open>
  The removal of duplicates in the words of the design: the first occurrence of a
  coordinate stays, every later one goes.
\<close>

fun first_occurrences :: "cell list \<Rightarrow> cell list" where
  "first_occurrences [] = []"
| "first_occurrences (c # cs) = c # first_occurrences (filter (\<lambda>e. e \<noteq> c) cs)"

text \<open>A coordinate after the wrap of \<open>getCellObj\<close>.\<close>

definition normalized :: "dims \<Rightarrow> cell \<Rightarrow> cell" where
  "normalized d c = getCellObj d (cx c) (cy c)"

text \<open>One step, then a look at the grid: a single cell, or all cells drawn alive.\<close>

definition cell_after :: "dims \<Rightarrow> jsval list list \<Rightarrow> state \<Rightarrow> int \<Rightarrow> int \<Rightarrow> error + jsval" where
  "cell_after d rs s x y =
     (case updateCells d rs s of Inl e \<Rightarrow> Inl e | Inr s' \<Rightarrow> getCell d s' x y)"

definition alive_after :: "dims \<Rightarrow> jsval list list \<Rightarrow> state \<Rightarrow> error + cell list" where
  "alive_after d rs s =
     (case updateCells d rs s of Inl e \<Rightarrow> Inl e | Inr s' \<Rightarrow> Inr (alive_cells d s'))"

definition queue_after :: "dims \<Rightarrow> jsval list list \<Rightarrow> state \<Rightarrow> error + cell list" where
  "queue_after d rs s =
     (case updateCells d rs s of Inl e \<Rightarrow> Inl e | Inr s' \<Rightarrow> Inr (queue s'))"

subsection \<open>Concrete states\<close>

definition state_of :: "jsval list list \<Rightarrow> cell list \<Rightarrow> state" where
  "state_of g q = \<lparr>rows = store_rows g, grid = [0..<length g], queue = q\<rparr>"

definition dims5 :: dims where
  "dims5 = \<lparr>width = 5, height = 5\<rparr>"

text \<open>
  The 5 by 5 grid after clicks on (1,2), (2,2) and (3,2) (lemma \<open>session_blinker\<close>);
  \<open>grid[x]\<close> is column \<open>x\<close>.
\<close>

definition blinker_grid :: "jsval list list" where
  "blinker_grid =
     [[Num 0, Num 0, Num 0, Num 0, Num 0],
      [Num 0, Num 0, Bool True, Num 0, Num 0],
      [Num 0, Num 0, Bool True, Num 0, Num 0],
      [Num 0, Num 0, Bool True, Num 0, Num 0],
      [Num 0, Num 0, Num 0, Num 0, Num 0]]"

text \<open>
  The three cells, then their neighbours in the order of \<open>getNeighborCells\<close>, each
  coordinate once.
\<close>

definition blinker_queue :: "cell list" where
  "blinker_queue =
     [Cell 1 2, Cell 2 2, Cell 3 2,
      Cell 2 3, Cell 1 3, Cell 0 3, Cell 0 2, Cell 0 1, Cell 1 1, Cell 2 1,
      Cell 3 3, Cell 3 1, Cell 4 2, Cell 4 3, Cell 4 1]"
section \<open>Arithmetic of the wrap and the construction loops\<close>

lemma js_rem_pos: "0 < b \<Longrightarrow> js_rem a b = (if 0 \<le> a then a mod b else - ((- a) mod b))"
  by (simp add: js_rem_def sgn_if abs_if)

lemma wrap_mod: "0 < w \<Longrightarrow> wrap c w = c mod w"
proof -
  assume w: "0 < w"
  show ?thesis
  proof (cases "0 \<le> c")
    case True
    have "0 \<le> c mod w" using w by simp
    then show ?thesis using w True by (simp add: wrap_def js_rem_pos)
  next
    case False
    have lt: "(- c) mod w < w" using w by simp
    have first: "js_rem c w = - ((- c) mod w)"
      using w False by (simp add: js_rem_pos)
    have ge: "0 \<le> - ((- c) mod w) + w"
      using lt by linarith
    have "js_rem (- ((- c) mod w) + w) w = (- ((- c) mod w) + w) mod w"
      using w ge by (simp add: js_rem_pos)
    also have "\<dots> = (- ((- c) mod w)) mod w"
      by simp
    also have "\<dots> = c mod w"
      by (simp add: mod_minus_eq)
    finally show ?thesis by (simp add: wrap_def first)
  qed
qed

lemma wrap_range: "0 < w \<Longrightarrow> 0 \<le> wrap c w \<and> wrap c w < w"
  by (simp add: wrap_mod)

lemma wrap_shift: "0 < w \<Longrightarrow> wrap (c + k * w) w = wrap c w"
  by (simp add: wrap_mod)

lemma push_cells_eq: "push_cells y h row = row @ replicate (nat (h - y)) (Num 0)"
proof (induction y h row rule: push_cells.induct)
  case (1 y h row)
  show ?case
  proof (cases "y < h")
    case True
    then have "nat (h - y) = Suc (nat (h - (y + 1)))" by simp
    with 1 True show ?thesis
      by (subst push_cells.simps) (simp add: replicate_app_Cons_same)
  next
    case False
    then show ?thesis by (subst push_cells.simps) simp
  qed
qed

lemma push_rows_eq:
  "push_rows x w h g = g @ replicate (nat (w - x)) (replicate (nat h) (Num 0))"
proof (induction x w h g rule: push_rows.induct)
  case (1 x w h g)
  show ?case
  proof (cases "x < w")
    case True
    then have "nat (w - x) = Suc (nat (w - (x + 1)))" by simp
    with 1 True show ?thesis
      by (subst push_rows.simps) (simp add: push_cells_eq replicate_app_Cons_same)
  next
    case False
    then show ?thesis by (subst push_rows.simps) simp
  qed
qed

lemma makeGrid_eq: "makeGrid w h = replicate (nat w) (replicate (nat h) (Num 0))"
  by (simp add: makeGrid_def push_rows_eq)


subsection \<open>Evaluating the store\<close>

lemma js_index_upt: "js_index [0..<n] i = (if 0 \<le> i \<and> i < int n then Some (nat i) else None)"
  by (auto simp: js_index_def)

lemma getCell_shift:
  assumes "0 < width d" "0 < height d"
  shows "getCell d s (x + k * width d) (y + l * height d) = getCell d s x y"
  using assms by (simp add: getCell_def wrap_shift split: option.splits)

section \<open>Toroidal wrap\<close>

text \<open>
  C5. For positive width and height and all integers \<open>x\<close>, \<open>y\<close>, the expression
  \<open>((c % dim) + dim) % dim\<close> lands in \<open>[0, W)\<close> for \<open>x\<close> and in \<open>[0, H)\<close> for \<open>y\<close>, and
  \<open>getCell\<close> reads the same cell after \<open>x\<close> is moved by a multiple of the width and
  \<open>y\<close> by a multiple of the height (in particular by the same multiple \<open>k\<close>).
\<close>

theorem getCell_toroidal:
  assumes "0 < width d" and "0 < height d"
  shows "0 \<le> wrap x (width d) \<and> wrap x (width d) < width d \<and>
         0 \<le> wrap y (height d) \<and> wrap y (height d) < height d \<and>
         getCell d s (x + k * width d) (y + k * height d) = getCell d s x y \<and>
         getCell d s (x + k * width d) (y + l * height d) = getCell d s x y"
  using assms by (simp add: wrap_range getCell_shift)

theorem getCell_toroidal_witness:
  "0 < width dimensions \<and> 0 < height dimensions \<and>
   0 \<le> wrap (- 1) (width dimensions) \<and> wrap (- 1) (width dimensions) < width dimensions \<and>
   0 \<le> wrap 57 (height dimensions) \<and> wrap 57 (height dimensions) < height dimensions \<and>
   getCell dimensions (state_of (makeGrid 50 50) []) (- 1 + 3 * width dimensions)
       (57 + 3 * height dimensions)
     = getCell dimensions (state_of (makeGrid 50 50) []) (- 1) 57"
proof -
  have w: "0 < width dimensions" and h: "0 < height dimensions"
    by (simp_all add: dimensions_def)
  show ?thesis
    using w h getCell_toroidal [OF w h, where x = "- 1" and y = 57 and k = 3 and l = 3
        and s = "state_of (makeGrid 50 50) []"]
    by simp
qed

section \<open>The rule table\<close>

lemma nextState_rules:
  assumes "0 \<le> n" and "n \<le> 8"
  shows "\<exists>v. nextState rules oldState (Num n) = Inr v \<and> (v = Num 0 \<or> v = Num 1) \<and>
           (truthy v \<longleftrightarrow> (if truthy oldState then n = 2 \<or> n = 3 else n = 3))"
proof -
  from assms consider "n = 3" | "n = 2" | "n = 0" | "n = 1" | "n = 4" | "n = 5"
    | "n = 6" | "n = 7" | "n = 8"
    by arith
  then show ?thesis
    by cases (simp_all add: nextState_def rules_def js_index_def js_lookup_def)
qed

text \<open>
  C7. The default rule table is the classical transition: for every live-neighbour
  count \<open>n\<close> from 0 to 8, the next state of a dead cell is alive exactly when \<open>n = 3\<close>,
  and the next state of a live cell is alive exactly when \<open>n = 2\<close> or \<open>n = 3\<close>. The
  lookup never fails and returns the number 0 or 1; dead and alive cover the numbers
  and the booleans a cell can hold.
\<close>

theorem rules_classical:
  assumes "0 \<le> n" and "n \<le> 8"
  shows "\<exists>v. nextState rules oldState (Num n) = Inr v \<and> (v = Num 0 \<or> v = Num 1) \<and>
           (truthy v \<longleftrightarrow> (if truthy oldState then n = 2 \<or> n = 3 else n = 3))"
  using assms by (rule nextState_rules)

theorem rules_classical_witness:
  "(0::int) \<le> 3 \<and> (3::int) \<le> 8 \<and>
   (\<exists>v. nextState rules (Bool False) (Num 3) = Inr v \<and> (v = Num 0 \<or> v = Num 1) \<and> truthy v)"
proof -
  have a: "(0::int) \<le> 3" and b: "(3::int) \<le> 8" by simp_all
  show ?thesis
    using rules_classical [OF a b, of "Bool False"] by simp
qed

section \<open>The step on an empty queue\<close>

text \<open>
  C4. For every grid and rule table, \<open>updateCells\<close> with an empty queue returns
  normally, leaves the store and the grid as they were (so every cell is unchanged)
  and leaves the queue empty.
\<close>

theorem updateCells_empty_queue:
  assumes "queue s = []"
  shows "updateCells d rs s = Inr s"
  using assms by (simp add: updateCells_def slice_def cleanQueue_def)

theorem updateCells_empty_queue_witness:
  "queue (state_of blinker_grid []) = [] \<and>
   updateCells dims5 rules (state_of blinker_grid []) = Inr (state_of blinker_grid [])"
proof -
  have q: "queue (state_of blinker_grid []) = []"
    by (simp add: state_of_def)
  show ?thesis
    using q updateCells_empty_queue [OF q, of dims5 rules] by simp
qed
section \<open>Removal of duplicates\<close>

lemma same_coordinates: "(cx e = cx c \<and> cy e = cy c) \<longleftrightarrow> e = c"
  by (auto simp: cell.expand)

lemma list_ex_same_coordinates:
  "list_ex (\<lambda>e. cx e = cx c \<and> cy e = cy c) u \<longleftrightarrow> c \<in> set u"
  by (simp add: same_coordinates list_ex_iff)

lemma foldl_unique:
  "foldl (\<lambda>unique c. if c \<notin> set unique then unique @ [c] else unique) acc xs
     = acc @ first_occurrences (filter (\<lambda>c. c \<notin> set acc) xs)"
proof (induction xs arbitrary: acc)
  case Nil
  then show ?case by simp
next
  case (Cons x xs)
  show ?case
    by (simp add: Cons.IH conj_commute)
qed

lemma cleanQueue_eq: "cleanQueue xs = first_occurrences xs"
  by (simp add: cleanQueue_def list_ex_same_coordinates foldl_unique)

lemma set_first_occurrences: "set (first_occurrences xs) = set xs"
  by (induction xs rule: first_occurrences.induct) auto

lemma distinct_first_occurrences: "distinct (first_occurrences xs)"
  by (induction xs rule: first_occurrences.induct) (auto simp: set_first_occurrences)

lemma subseq_first_occurrences: "subseq (first_occurrences xs) xs"
proof (induction xs rule: first_occurrences.induct)
  case 1
  then show ?case by simp
next
  case (2 c cs)
  have "subseq (filter (\<lambda>e. e \<noteq> c) cs) cs"
    by simp
  with 2 have "subseq (first_occurrences (filter (\<lambda>e. e \<noteq> c) cs)) cs"
    using subseq_order.trans by blast
  then show ?case by simp
qed

lemma first_occurrences_distinct: "distinct xs \<Longrightarrow> first_occurrences xs = xs"
proof (induction xs)
  case Nil
  then show ?case by simp
next
  case (Cons x xs)
  then have "filter (\<lambda>e. e \<noteq> x) xs = xs"
    by (auto intro: filter_True)
  with Cons show ?case by simp
qed

lemma set_cleanQueue: "set (cleanQueue xs) = set xs"
  by (simp add: cleanQueue_eq set_first_occurrences)

lemma normalized_in_range:
  assumes "in_range d c"
  shows "normalized d c = c"
proof -
  from assms have "0 < width d" and "0 < height d"
    by (auto simp: in_range_def)
  with assms show ?thesis
    by (simp add: normalized_def getCellObj_def wrap_mod in_range_def cell.expand)
qed

text \<open>
  C8, as the code has it. For every sequence \<open>xs\<close> of coordinates, \<open>cleanQueue xs\<close> is
  a subsequence of \<open>xs\<close> that keeps the first occurrence of each coordinate and drops
  the later ones, \<open>cleanQueue (cleanQueue xs) = cleanQueue xs\<close>, and no two elements
  of \<open>cleanQueue xs\<close> have equal \<open>x\<close> and equal \<open>y\<close> as stored. The comparison is on the
  stored coordinates, not on normalized ones; when every element of \<open>xs\<close> is in range,
  as every coordinate the engine enqueues is, the two coincide and no two elements
  have equal normalized coordinates either.
\<close>

theorem cleanQueue_keeps_first:
  "cleanQueue xs = first_occurrences xs \<and>
   subseq (cleanQueue xs) xs \<and>
   set (cleanQueue xs) = set xs \<and>
   cleanQueue (cleanQueue xs) = cleanQueue xs \<and>
   distinct (cleanQueue xs) \<and>
   (list_all (in_range d) xs \<longrightarrow> distinct (map (normalized d) (cleanQueue xs)))"
proof -
  have "distinct (map (normalized d) (cleanQueue xs))" if "list_all (in_range d) xs"
  proof -
    from that have "\<forall>c \<in> set (cleanQueue xs). normalized d c = c"
      by (simp add: set_cleanQueue list_all_iff normalized_in_range)
    then have "map (normalized d) (cleanQueue xs) = cleanQueue xs"
      by (simp add: map_idI)
    then show ?thesis
      by (simp add: cleanQueue_eq distinct_first_occurrences)
  qed
  then show ?thesis
    by (simp add: cleanQueue_eq subseq_first_occurrences set_first_occurrences
        distinct_first_occurrences first_occurrences_distinct)
qed

theorem cleanQueue_keeps_first_witness:
  "list_all (in_range dimensions) [Cell 1 2, Cell 3 4, Cell 1 2, Cell 3 4, Cell 0 49] \<and>
   cleanQueue [Cell 1 2, Cell 3 4, Cell 1 2, Cell 3 4, Cell 0 49]
     = [Cell 1 2, Cell 3 4, Cell 0 49] \<and>
   distinct (map (normalized dimensions)
     (cleanQueue [Cell 1 2, Cell 3 4, Cell 1 2, Cell 3 4, Cell 0 49]))"
proof -
  have r: "list_all (in_range dimensions) [Cell 1 2, Cell 3 4, Cell 1 2, Cell 3 4, Cell 0 49]"
    by (simp add: in_range_def dimensions_def)
  have v: "cleanQueue [Cell 1 2, Cell 3 4, Cell 1 2, Cell 3 4, Cell 0 49]
             = [Cell 1 2, Cell 3 4, Cell 0 49]"
    by (simp add: cleanQueue_def)
  from cleanQueue_keeps_first
    [of "[Cell 1 2, Cell 3 4, Cell 1 2, Cell 3 4, Cell 0 49]" dimensions] r
  have "distinct (map (normalized dimensions)
     (cleanQueue [Cell 1 2, Cell 3 4, Cell 1 2, Cell 3 4, Cell 0 49]))"
    by blast
  with r v show ?thesis by blast
qed

text \<open>
  C8 as stated fails on coordinates that are not normalized: on the 50 by 50 grid,
  (0,0) and (50,0) are both kept although they normalize to the same cell.
\<close>

theorem cleanQueue_not_normalizing:
  "cleanQueue [Cell 0 0, Cell 50 0] = [Cell 0 0, Cell 50 0] \<and>
   normalized dimensions (Cell 0 0) = normalized dimensions (Cell 50 0) \<and>
   \<not> distinct (map (normalized dimensions) (cleanQueue [Cell 0 0, Cell 50 0]))"
  by (simp add: cleanQueue_def normalized_def getCellObj_def wrap_def js_rem_def dimensions_def)

section \<open>Construction\<close>

text \<open>
  C9, as the code has it. Construction never rejects a configuration: for all integers
  \<open>w\<close> and \<open>h\<close>, \<open>makeGrid w h\<close> returns \<open>max w 0\<close> rows of \<open>max h 0\<close> dead cells (no
  row for \<open>w \<le> 0\<close>, empty rows for \<open>h \<le> 0\<close>) and initialisation stores it with an
  empty queue without raising. The rule table is a literal with exactly 9 entries for
  each of the dead and alive cases; no code checks it.
\<close>

theorem construction_unchecked:
  "initial_state d = Inr (state_of (makeGrid (width d) (height d)) []) \<and>
   makeGrid w h = replicate (nat w) (replicate (nat h) (Num 0)) \<and>
   map length rules = [9, 9]"
  by (simp add: initial_state_def state_of_def makeGrid_eq rules_def)

text \<open>
  C9 as stated fails: a width of 0 with a negative height, and a negative width, each
  give an empty grid and no error; and a step with a rule table of two empty rows is
  carried out, writing \<open>undefined\<close> into the visited cell.
\<close>

theorem construction_accepts_malformed:
  "initial_state \<lparr>width = 0, height = - 3\<rparr> = Inr (state_of [] []) \<and>
   initial_state \<lparr>width = - 2, height = 4\<rparr> = Inr (state_of [] []) \<and>
   cell_after dims5 [[], []] (state_of blinker_grid [Cell 2 2]) 2 2 = Inr Undefined"
proof -
  have "cell_after dims5 [[], []] (state_of blinker_grid [Cell 2 2]) 2 2 = Inr Undefined"
    by code_simp
  then show ?thesis
    by (simp add: initial_state_def makeGrid_eq state_of_def)
qed
section \<open>The Moore neighbourhood on the torus\<close>

lemma mod_shift_neq:
  fixes w :: int
  assumes "3 \<le> w"
  shows "(x + 1) mod w \<noteq> x mod w"
    and "(x - 1) mod w \<noteq> x mod w"
    and "(x + 1) mod w \<noteq> (x - 1) mod w"
proof -
  have one: "\<not> w dvd 1" and two: "\<not> w dvd 2"
    using assms zdvd_imp_le [of w 1] zdvd_imp_le [of w 2] by auto
  show "(x + 1) mod w \<noteq> x mod w"
    using one by (simp add: mod_eq_dvd_iff)
  show "(x - 1) mod w \<noteq> x mod w"
    using one by (simp add: mod_eq_dvd_iff)
  show "(x + 1) mod w \<noteq> (x - 1) mod w"
    using two by (simp add: mod_eq_dvd_iff)
qed

lemma getCellObj_mod:
  assumes "0 < width d" and "0 < height d"
  shows "getCellObj d x y = Cell (x mod width d) (y mod height d)"
  using assms by (simp add: getCellObj_def wrap_mod)

lemma in_range_getCellObj:
  assumes "0 < width d" and "0 < height d"
  shows "in_range d (getCellObj d x y)"
  using assms by (simp add: getCellObj_mod in_range_def)

lemma getNeighborCells_mod:
  assumes "0 < width d" and "0 < height d"
  shows "getNeighborCells d x y =
           [Cell ((x + 1) mod width d) (y mod height d),
            Cell ((x + 1) mod width d) ((y + 1) mod height d),
            Cell (x mod width d) ((y + 1) mod height d),
            Cell ((x - 1) mod width d) ((y + 1) mod height d),
            Cell ((x - 1) mod width d) (y mod height d),
            Cell ((x - 1) mod width d) ((y - 1) mod height d),
            Cell (x mod width d) ((y - 1) mod height d),
            Cell ((x + 1) mod width d) ((y - 1) mod height d)]"
  using assms by (simp add: getNeighborCells_def getCellObj_mod)

lemma in_range_getNeighborCells:
  assumes "0 < width d" and "0 < height d"
  shows "list_all (in_range d) (getNeighborCells d x y)"
  using assms by (simp add: getNeighborCells_def in_range_getCellObj)

lemma distinct_getNeighborCells:
  assumes "3 \<le> width d" and "3 \<le> height d"
  shows "distinct (getNeighborCells d x y)"
proof -
  note xs = mod_shift_neq [OF assms(1), of x]
  note ys = mod_shift_neq [OF assms(2), of y]
  from assms have "0 < width d" and "0 < height d"
    by simp_all
  then show ?thesis
    using xs ys xs [symmetric] ys [symmetric]
    by (simp add: getNeighborCells_mod)
qed

subsection \<open>Counting live neighbours\<close>

lemma set_all_cells: "set (all_cells d) = {c. in_range d c}"
proof -
  have "c \<in> set (all_cells d) \<longleftrightarrow> in_range d c" for c
    by (cases c) (fastforce simp: all_cells_def in_range_def image_iff)
  then show ?thesis by blast
qed

lemma grid_ok_getCell:
  assumes "grid_ok d s" and "in_range d c"
  shows "\<exists>v. getCell d s (cx c) (cy c) = Inr v \<and> cell_value v"
proof -
  from assms(2) have "c \<in> set (all_cells d)"
    by (simp add: set_all_cells)
  with assms(1) show ?thesis
    by (cases "getCell d s (cx c) (cy c)") (auto simp: grid_ok_def list_all_iff)
qed

lemma map_cells_Inr:
  "map_cells f cs = Inr vs \<longleftrightarrow> map f cs = map Inr vs"
proof (induction cs arbitrary: vs)
  case Nil
  then show ?case by auto
next
  case (Cons c cs)
  show ?case
  proof (cases "f c")
    case (Inl e)
    then show ?thesis by (cases vs) auto
  next
    case (Inr v)
    show ?thesis
    proof (cases "map_cells f cs")
      case (Inl e)
      with Cons.IH have "map f cs \<noteq> map Inr ws" for ws
        by (metis sum.distinct(1))
      with Inl Inr show ?thesis by (cases vs) auto
    next
      case inr: (Inr ws)
      with Cons.IH [of ws] have "map f cs = map Inr ws" by simp
      with inr Inr show ?thesis
        by (cases vs) (auto simp: inj_map_eq_map [OF inj_Inr])
    qed
  qed
qed

lemma map_cells_total:
  assumes "\<forall>c \<in> set cs. \<exists>v. f c = Inr v \<and> P v"
  shows "\<exists>vs. map_cells f cs = Inr vs \<and> list_all P vs \<and> length vs = length cs"
  using assms
proof (induction cs)
  case Nil
  then show ?case by simp
next
  case (Cons c cs)
  then obtain v vs where "f c = Inr v" "P v" "map_cells f cs = Inr vs" "list_all P vs"
      "length vs = length cs"
    by auto
  then show ?case by simp
qed

lemma foldl_js_add:
  assumes "list_all cell_value vs"
  shows "foldl js_add (Num a) vs = Num (a + int (length (filter truthy vs)))"
  using assms
proof (induction vs arbitrary: a)
  case Nil
  then show ?case by simp
next
  case (Cons v vs)
  from Cons.prems have "cell_value v" and rest: "list_all cell_value vs"
    by simp_all
  then have "js_add (Num a) v = Num (a + (if truthy v then 1 else 0))"
    by (auto simp: cell_value_def js_add_def)
  with Cons.IH [OF rest] show ?case by simp
qed

lemma filter_truthy_is_alive:
  assumes "map (\<lambda>c. getCell d s (cx c) (cy c)) cs = map Inr vs"
  shows "length (filter truthy vs) = length (filter (is_alive d s) cs)"
  using assms
proof (induction cs arbitrary: vs)
  case Nil
  then show ?case by simp
next
  case (Cons c cs)
  then obtain v ws where vs: "vs = v # ws" and v: "getCell d s (cx c) (cy c) = Inr v"
      and ws: "map (\<lambda>c. getCell d s (cx c) (cy c)) cs = map Inr ws"
    by (cases vs) auto
  from Cons.IH [OF ws] show ?case
    by (simp add: vs is_alive_def v)
qed

lemma getNeighborCount_alive:
  assumes "0 < width d" and "0 < height d" and "grid_ok d s"
  shows "getNeighborCount d s x y
           = Inr (Num (int (length (filter (is_alive d s) (getNeighborCells d x y)))))"
proof -
  let ?f = "\<lambda>c. getCell d s (cx c) (cy c)"
  have "\<forall>c \<in> set (getNeighborCells d x y). \<exists>v. ?f c = Inr v \<and> cell_value v"
    using in_range_getNeighborCells [OF assms(1,2), of x y] grid_ok_getCell [OF assms(3)]
    by (simp add: list_all_iff)
  from map_cells_total [OF this]
  obtain vs where vs: "map_cells ?f (getNeighborCells d x y) = Inr vs"
    and ok: "list_all cell_value vs"
    by blast
  from vs have "map ?f (getNeighborCells d x y) = map Inr vs"
    by (simp add: map_cells_Inr)
  then have "length (filter truthy vs) = length (filter (is_alive d s) (getNeighborCells d x y))"
    by (rule filter_truthy_is_alive)
  with vs ok show ?thesis
    by (simp add: getNeighborCount_def getNeighborStates_def foldl_js_add)
qed

text \<open>
  C6. On a grid with width and height at least 3, \<open>getNeighborCells x y\<close> is the list
  of the offsets (+1,0), (+1,+1), (0,+1), (-1,+1), (-1,0), (-1,-1), (0,-1), (+1,-1)
  applied to \<open>(x, y)\<close> and reduced modulo width and height, in this order: 8 pairwise
  distinct coordinates, all in range. On a grid whose cells all hold a dead or alive
  value, \<open>getNeighborCount x y\<close> returns the number of those neighbours that are
  alive, an integer from 0 to 8.
\<close>

theorem getNeighborCells_moore:
  assumes "3 \<le> width d" and "3 \<le> height d"
  shows "getNeighborCells d x y =
           map (\<lambda>(dx, dy). Cell ((x + dx) mod width d) ((y + dy) mod height d))
             [(1, 0), (1, 1), (0, 1), (- 1, 1), (- 1, 0), (- 1, - 1), (0, - 1), (1, - 1)] \<and>
         length (getNeighborCells d x y) = 8 \<and>
         distinct (getNeighborCells d x y) \<and>
         list_all (in_range d) (getNeighborCells d x y) \<and>
         (grid_ok d s \<longrightarrow>
            (\<exists>n. getNeighborCount d s x y = Inr (Num n) \<and> 0 \<le> n \<and> n \<le> 8 \<and>
                 n = int (length (filter (is_alive d s) (getNeighborCells d x y)))))"
proof -
  from assms have w: "0 < width d" and h: "0 < height d"
    by simp_all
  have order: "getNeighborCells d x y =
           map (\<lambda>(dx, dy). Cell ((x + dx) mod width d) ((y + dy) mod height d))
             [(1, 0), (1, 1), (0, 1), (- 1, 1), (- 1, 0), (- 1, - 1), (0, - 1), (1, - 1)]"
    by (simp add: getNeighborCells_mod [OF w h])
  have len: "length (getNeighborCells d x y) = 8"
    by (simp add: getNeighborCells_def)
  have "length (filter (is_alive d s) (getNeighborCells d x y)) \<le> 8"
    using length_filter_le [of "is_alive d s" "getNeighborCells d x y"] len by simp
  then have count: "grid_ok d s \<longrightarrow>
            (\<exists>n. getNeighborCount d s x y = Inr (Num n) \<and> 0 \<le> n \<and> n \<le> 8 \<and>
                 n = int (length (filter (is_alive d s) (getNeighborCells d x y))))"
    by (simp add: getNeighborCount_alive [OF w h])
  from order len distinct_getNeighborCells [OF assms] in_range_getNeighborCells [OF w h] count
  show ?thesis by blast
qed

theorem getNeighborCells_moore_witness:
  "3 \<le> width dims5 \<and> 3 \<le> height dims5 \<and> grid_ok dims5 (state_of blinker_grid []) \<and>
   getNeighborCells dims5 0 0 =
     [Cell 1 0, Cell 1 1, Cell 0 1, Cell 4 1, Cell 4 0, Cell 4 4, Cell 0 4, Cell 1 4] \<and>
   distinct (getNeighborCells dims5 0 0) \<and>
   list_all (in_range dims5) (getNeighborCells dims5 0 0) \<and>
   getNeighborCount dims5 (state_of blinker_grid []) 2 1 = Inr (Num 3)"
proof -
  have w: "3 \<le> width dims5" and h: "3 \<le> height dims5"
    by (simp_all add: dims5_def)
  have ok: "grid_ok dims5 (state_of blinker_grid [])"
    by code_simp
  have three: "length (filter (is_alive dims5 (state_of blinker_grid []))
      (getNeighborCells dims5 2 1)) = 3"
    by code_simp
  note at00 = getNeighborCells_moore [OF w h, of 0 0 "state_of blinker_grid []"]
  note at21 = getNeighborCells_moore [OF w h, of 2 1 "state_of blinker_grid []"]
  from at00 have "getNeighborCells dims5 0 0 =
     [Cell 1 0, Cell 1 1, Cell 0 1, Cell 4 1, Cell 4 0, Cell 4 4, Cell 0 4, Cell 1 4]"
    by (simp add: dims5_def)
  moreover from at00 have "distinct (getNeighborCells dims5 0 0)"
    and "list_all (in_range dims5) (getNeighborCells dims5 0 0)"
    by blast+
  moreover from at21 ok three
  have "getNeighborCount dims5 (state_of blinker_grid []) 2 1 = Inr (Num 3)"
    by auto
  ultimately show ?thesis
    using w h ok by blast
qed
section \<open>The loop of updateCells\<close>

lemma visit_cases:
  assumes "visit d rs ng (s, nq) c = Inr (s', nq')"
  shows "(changes d rs s c \<longrightarrow>
           nq' = nq @ getNeighborCells d (cx c) (cy c) \<and> grid s' = grid s) \<and>
         (\<not> changes d rs s c \<longrightarrow> nq' = nq \<and> s' = s)"
  using assms
  by (auto simp: visit_def changes_def split: sum.splits if_splits)

lemma forEach_append:
  "forEach d rs ng acc (xs @ ys) =
     (case forEach d rs ng acc xs of Inl e \<Rightarrow> Inl e | Inr acc' \<Rightarrow> forEach d rs ng acc' ys)"
  by (induction xs arbitrary: acc) (auto split: sum.splits)

lemma forEach_grows:
  assumes "forEach d rs ng (s, nq) cs = Inr (s', nq')"
  shows "set nq \<subseteq> set nq' \<and> grid s' = grid s"
  using assms
proof (induction cs arbitrary: s nq)
  case Nil
  then show ?case by simp
next
  case (Cons c cs)
  from Cons.prems obtain s1 nq1 where v: "visit d rs ng (s, nq) c = Inr (s1, nq1)"
    and rest: "forEach d rs ng (s1, nq1) cs = Inr (s', nq')"
    by (auto split: sum.splits)
  from visit_cases [OF v] have "set nq \<subseteq> set nq1" and "grid s1 = grid s"
    by (cases "changes d rs s c"; auto)+
  with Cons.IH [OF rest] show ?case by auto
qed

lemma forEach_in_range:
  assumes "0 < width d" and "0 < height d"
    and "forEach d rs ng (s, nq) cs = Inr (s', nq')"
    and "list_all (in_range d) nq"
  shows "list_all (in_range d) nq'"
  using assms(3,4)
proof (induction cs arbitrary: s nq)
  case Nil
  then show ?case by simp
next
  case (Cons c cs)
  from Cons.prems(1) obtain s1 nq1 where v: "visit d rs ng (s, nq) c = Inr (s1, nq1)"
    and rest: "forEach d rs ng (s1, nq1) cs = Inr (s', nq')"
    by (auto split: sum.splits)
  from visit_cases [OF v] Cons.prems(2) in_range_getNeighborCells [OF assms(1,2), of "cx c" "cy c"]
  have "list_all (in_range d) nq1"
    by (cases "changes d rs s c"; simp)
  with Cons.IH [OF rest] show ?case .
qed

lemma updateCells_Inr:
  "updateCells d rs s = Inr s' \<longleftrightarrow>
     (\<exists>s1 nq. forEach d rs (slice (grid s)) (s, []) (queue s) = Inr (s1, nq) \<and>
        s' = s1\<lparr>queue := cleanQueue nq, grid := slice (grid s)\<rparr>)"
  by (auto simp: updateCells_def Let_def split: sum.splits)

lemma updateCells_in_range:
  assumes "0 < width d" and "0 < height d" and "updateCells d rs s = Inr s'"
  shows "list_all (in_range d) (queue s')"
proof -
  from assms(3) obtain s1 nq
    where loop: "forEach d rs (slice (grid s)) (s, []) (queue s) = Inr (s1, nq)"
      and s': "s' = s1\<lparr>queue := cleanQueue nq, grid := slice (grid s)\<rparr>"
    by (auto simp: updateCells_Inr)
  from forEach_in_range [OF assms(1,2) loop] have "list_all (in_range d) nq"
    by simp
  then show ?thesis
    by (simp add: s' list_all_iff set_cleanQueue)
qed

lemma ticks_in_range:
  assumes "0 < width d" and "0 < height d" and "ticks n d rs s = Inr s'"
    and "0 < n \<or> list_all (in_range d) (queue s)"
  shows "list_all (in_range d) (queue s')"
  using assms(3,4)
proof (induction n arbitrary: s)
  case 0
  then show ?case by simp
next
  case (Suc n)
  from Suc.prems(1) obtain s1 where step: "updateCells d rs s = Inr s1"
    and rest: "ticks n d rs s1 = Inr s'"
    by (auto split: sum.splits)
  from updateCells_in_range [OF assms(1,2) step] have "list_all (in_range d) (queue s1)" .
  with Suc.IH [OF rest] show ?case by simp
qed

subsection \<open>The step returns on a well-formed state\<close>

lemma getCell_total:
  assumes "0 < width d" and "width d \<le> int (length (grid s))"
  shows "\<exists>v. getCell d s x y = Inr v"
proof -
  from wrap_range [OF assms(1), of x] assms(2)
  have "0 \<le> wrap x (width d) \<and> wrap x (width d) < int (length (grid s))"
    by simp
  with assms(1) show ?thesis
    by (simp add: getCell_def js_index_def)
qed

lemma getNeighborCount_total:
  assumes "0 < width d" and "width d \<le> int (length (grid s))"
  shows "\<exists>n. getNeighborCount d s x y = Inr n"
proof -
  have "\<forall>c \<in> set (getNeighborCells d x y). \<exists>v. getCell d s (cx c) (cy c) = Inr v \<and> True"
    using getCell_total [OF assms] by simp
  from map_cells_total [OF this] show ?thesis
    by (auto simp: getNeighborCount_def getNeighborStates_def)
qed

lemma visit_total:
  assumes "0 < width d" and "width d \<le> int (length (grid s))" and "2 \<le> length rs"
    and "0 \<le> cx c" and "cx c < int (length ng)"
  shows "\<exists>s' nq'. visit d rs ng (s, nq) c = Inr (s', nq') \<and> grid s' = grid s"
proof -
  obtain old where old: "getCell d s (cx c) (cy c) = Inr old"
    using getCell_total [OF assms(1,2)] by blast
  obtain n where n: "getNeighborCount d s (cx c) (cy c) = Inr n"
    using getNeighborCount_total [OF assms(1,2)] by blast
  have "\<exists>new. nextState rs old n = Inr new"
  proof -
    from assms(3) have "rs \<noteq> []" and "1 < length rs"
      by auto
    then show ?thesis
      by (simp add: nextState_def js_index_def)
  qed
  then obtain new where new: "nextState rs old n = Inr new" ..
  obtain h where h: "setCellInGrid (rows s) ng (cx c) (cy c) new = Inr h"
    using assms(4,5) by (auto simp: setCellInGrid_def js_index_def)
  show ?thesis
    by (simp add: visit_def old n new h)
qed

lemma forEach_total:
  assumes "0 < width d" and "width d \<le> int (length (grid s))" and "2 \<le> length rs"
    and "list_all (\<lambda>c. 0 \<le> cx c \<and> cx c < int (length ng)) cs"
  shows "\<exists>acc. forEach d rs ng (s, nq) cs = Inr acc"
  using assms(2,4)
proof (induction cs arbitrary: s nq)
  case Nil
  then show ?case by simp
next
  case (Cons c cs)
  from Cons.prems(2) have c: "0 \<le> cx c" "cx c < int (length ng)"
    and cs: "list_all (\<lambda>c. 0 \<le> cx c \<and> cx c < int (length ng)) cs"
    by simp_all
  from visit_total [OF assms(1) Cons.prems(1) assms(3) c, of nq]
  obtain s1 nq1 where v: "visit d rs ng (s, nq) c = Inr (s1, nq1)" and g: "grid s1 = grid s"
    by blast
  from Cons.prems(1) g have "width d \<le> int (length (grid s1))"
    by simp
  from Cons.IH [OF this cs, of nq1] v show ?case by simp
qed

lemma updateCells_total:
  assumes "0 < width d" and "width d \<le> int (length (grid s))" and "2 \<le> length rs"
    and "list_all (\<lambda>c. 0 \<le> cx c \<and> cx c < int (length (grid s))) (queue s)"
  shows "\<exists>s'. updateCells d rs s = Inr s'"
proof -
  from assms(4) have "list_all (\<lambda>c. 0 \<le> cx c \<and> cx c < int (length (slice (grid s)))) (queue s)"
    by (simp add: slice_def)
  from forEach_total [OF assms(1,2,3) this, of "[]"]
  show ?thesis
    by (auto simp: updateCells_Inr)
qed

subsection \<open>A zero dimension\<close>

lemma zero_dimension_no_change:
  assumes "width d = 0 \<or> height d = 0"
  shows "\<not> changes d rs s c"
proof (cases "width d = 0")
  case True
  then show ?thesis by (simp add: changes_def getCell_def)
next
  case False
  with assms have h: "height d = 0" by simp
  have cellv: "getCell d s x y = Inl TypeError \<or> getCell d s x y = Inr Undefined" for x y
    using h False by (simp add: getCell_def split: option.splits)
  have "vs = replicate (length cs) Undefined"
    if "map_cells (\<lambda>c. getCell d s (cx c) (cy c)) cs = Inr vs" for cs vs
    using that
  proof (induction cs arbitrary: vs)
    case Nil then show ?case by simp
  next
    case (Cons a cs)
    then show ?case using cellv [of "cx a" "cy a"]
      by (auto split: sum.splits)
  qed
  note all_undefined = this
  have cnt: "getNeighborCount d s x y = Inl TypeError \<or> getNeighborCount d s x y = Inr NaN"
    for x y
  proof (cases "getNeighborStates d s x y")
    case (Inl e)
    then show ?thesis by (cases e) (simp add: getNeighborCount_def)
  next
    case (Inr vs)
    have "length (getNeighborCells d x y) = 8"
      by (simp add: getNeighborCells_def)
    with all_undefined [OF Inr [unfolded getNeighborStates_def]]
    have "vs = replicate 8 Undefined"
      by simp
    then have "foldl js_add (Num 0) vs = NaN"
      by (simp add: eval_nat_numeral js_add_def)
    with Inr show ?thesis by (simp add: getNeighborCount_def)
  qed
  show ?thesis
    using cellv [of "cx c" "cy c"] cnt [of "cx c" "cy c"]
    by (auto simp: changes_def nextState_def js_lookup_def loose_eq_def split: sum.splits option.splits)
qed

section \<open>What a step enqueues\<close>

text \<open>
  C10. With positive width and height, every coordinate in the queue that a step
  returns is in range, \<open>0 \<le> x < W\<close> and \<open>0 \<le> y < H\<close>, whatever the queue it was given
  held: the step only enqueues coordinates made by \<open>getCellObj\<close>. So the queue after
  any number of steps is in range when at least one step ran or the first queue was in
  range (the empty queue is).
\<close>

theorem next_queue_in_range:
  assumes "0 < width d" and "0 < height d"
  shows "(updateCells d rs s = Inr s' \<longrightarrow> list_all (in_range d) (queue s')) \<and>
         (ticks n d rs s = Inr s'' \<and> (0 < n \<or> list_all (in_range d) (queue s)) \<longrightarrow>
            list_all (in_range d) (queue s''))"
  using updateCells_in_range [OF assms] ticks_in_range [OF assms]
  by blast

theorem next_queue_in_range_witness:
  "0 < width dims5 \<and> 0 < height dims5 \<and>
   queue_after dims5 rules (state_of blinker_grid [Cell 1 7]) =
     Inr [Cell 2 2, Cell 2 3, Cell 1 3, Cell 0 3, Cell 0 2, Cell 0 1, Cell 1 1, Cell 2 1] \<and>
   list_all (in_range dims5)
     [Cell 2 2, Cell 2 3, Cell 1 3, Cell 0 3, Cell 0 2, Cell 0 1, Cell 1 1, Cell 2 1]"
proof -
  have w: "0 < width dims5" and h: "0 < height dims5"
    by (simp_all add: dims5_def)
  have q: "queue_after dims5 rules (state_of blinker_grid [Cell 1 7]) =
     Inr [Cell 2 2, Cell 2 3, Cell 1 3, Cell 0 3, Cell 0 2, Cell 0 1, Cell 1 1, Cell 2 1]"
    by code_simp
  then obtain s' where step: "updateCells dims5 rules (state_of blinker_grid [Cell 1 7]) = Inr s'"
    and s': "queue s' =
      [Cell 2 2, Cell 2 3, Cell 1 3, Cell 0 3, Cell 0 2, Cell 0 1, Cell 1 1, Cell 2 1]"
    by (auto simp: queue_after_def split: sum.splits)
  from next_queue_in_range [OF w h, of rules "state_of blinker_grid [Cell 1 7]" s'] step
  have "list_all (in_range dims5) (queue s')"
    by blast
  with w h q s' show ?thesis by simp
qed

text \<open>
  C3. For every grid, queue and rule table: when a step returns and a queued cell
  \<open>c\<close> changes state in it, that is, when the loop reaches \<open>c\<close> (after the cells
  \<open>pre\<close> queued before it) the computed next state differs from the old state, then
  each of the 8 toroidal Moore neighbours of \<open>c\<close> is in the queue the step returns.
\<close>

theorem changed_cell_enqueues_neighbours:
  assumes "updateCells d rs s = Inr s'"
    and "queue s = pre @ c # post"
    and "forEach d rs (slice (grid s)) (s, []) pre = Inr (s1, q1)"
    and "changes d rs s1 c"
  shows "set (getNeighborCells d (cx c) (cy c)) \<subseteq> set (queue s')"
proof -
  from assms(1) obtain s3 nq
    where loop: "forEach d rs (slice (grid s)) (s, []) (queue s) = Inr (s3, nq)"
      and s': "s' = s3\<lparr>queue := cleanQueue nq, grid := slice (grid s)\<rparr>"
    by (auto simp: updateCells_Inr)
  from loop assms(2,3) have tail: "forEach d rs (slice (grid s)) (s1, q1) (c # post) = Inr (s3, nq)"
    by (simp add: forEach_append)
  then obtain s2 q2 where v: "visit d rs (slice (grid s)) (s1, q1) c = Inr (s2, q2)"
    and rest: "forEach d rs (slice (grid s)) (s2, q2) post = Inr (s3, nq)"
    by (auto split: sum.splits)
  from visit_cases [OF v] assms(4) have "q2 = q1 @ getNeighborCells d (cx c) (cy c)"
    by simp
  with forEach_grows [OF rest] have "set (getNeighborCells d (cx c) (cy c)) \<subseteq> set nq"
    by auto
  then show ?thesis
    by (simp add: s' set_cleanQueue)
qed

theorem changed_cell_enqueues_neighbours_witness:
  "queue (state_of blinker_grid [Cell 2 2, Cell 1 2, Cell 3 2]) = [Cell 2 2] @ Cell 1 2 # [Cell 3 2] \<and>
   queue_after dims5 rules (state_of blinker_grid [Cell 2 2, Cell 1 2, Cell 3 2]) =
     Inr [Cell 2 2, Cell 2 3, Cell 1 3, Cell 0 3, Cell 0 2, Cell 0 1, Cell 1 1, Cell 2 1,
          Cell 4 2, Cell 4 3, Cell 3 3, Cell 3 1, Cell 4 1] \<and>
   set (getNeighborCells dims5 1 2) \<subseteq>
     set [Cell 2 2, Cell 2 3, Cell 1 3, Cell 0 3, Cell 0 2, Cell 0 1, Cell 1 1, Cell 2 1,
          Cell 4 2, Cell 4 3, Cell 3 3, Cell 3 1, Cell 4 1]"
proof -
  let ?s = "state_of blinker_grid [Cell 2 2, Cell 1 2, Cell 3 2]"
  let ?q = "[Cell 2 2, Cell 2 3, Cell 1 3, Cell 0 3, Cell 0 2, Cell 0 1, Cell 1 1, Cell 2 1,
          Cell 4 2, Cell 4 3, Cell 3 3, Cell 3 1, Cell 4 1]"
  have split: "queue ?s = [Cell 2 2] @ Cell 1 2 # [Cell 3 2]"
    by (simp add: state_of_def)
  have q: "queue_after dims5 rules ?s = Inr ?q"
    by code_simp
  then obtain s' where step: "updateCells dims5 rules ?s = Inr s'" and s': "queue s' = ?q"
    by (auto simp: queue_after_def split: sum.splits)
  have old: "getCell dims5 ?s 2 2 = Inr (Bool True)"
    by code_simp
  have n: "getNeighborCount dims5 ?s 2 2 = Inr (Num 2)"
    by code_simp
  have new: "nextState rules (Bool True) (Num 2) = Inr (Num 1)"
    by code_simp
  have same: "loose_eq (Num 1) (Bool True)"
    by code_simp
  have pre: "forEach dims5 rules (slice (grid ?s)) (?s, []) [Cell 2 2] = Inr (?s, [])"
    by (simp add: visit_def old n new same)
  have ch: "changes dims5 rules ?s (Cell 1 2)"
    by code_simp
  from changed_cell_enqueues_neighbours [OF step split pre ch] s' split q
  show ?thesis by simp
qed
section \<open>The step on a well-formed state: updates in place\<close>

lemma grid_ok_iff:
  "grid_ok d s \<longleftrightarrow>
     (\<forall>p. in_range d p \<longrightarrow> (\<exists>v. getCell d s (cx p) (cy p) = Inr v \<and> cell_value v))"
proof
  assume "grid_ok d s"
  then show "\<forall>p. in_range d p \<longrightarrow> (\<exists>v. getCell d s (cx p) (cy p) = Inr v \<and> cell_value v)"
    by (simp add: grid_ok_getCell)
next
  assume "\<forall>p. in_range d p \<longrightarrow> (\<exists>v. getCell d s (cx p) (cy p) = Inr v \<and> cell_value v)"
  then show "grid_ok d s"
    by (fastforce simp: grid_ok_def list_all_iff set_all_cells)
qed

lemma getCell_in_range:
  assumes "0 < width d" and "0 < height d" and "int (length (grid s)) = width d"
    and "in_range d p"
  shows "getCell d s (cx p) (cy p) = Inr (rows s (grid s ! nat (cx p)) (cy p))"
  using assms by (simp add: getCell_def wrap_mod js_index_def in_range_def)

lemma getCell_same_store:
  assumes "rows s = rows t" and "grid s = grid t"
  shows "getCell d s x y = getCell d t x y"
  by (auto simp: getCell_def assms split: option.splits)

lemma is_alive_same_store:
  assumes "rows s = rows t" and "grid s = grid t"
  shows "is_alive d s p = is_alive d t p"
  by (simp add: is_alive_def getCell_same_store [OF assms])

lemma getCell_normalized:
  assumes "0 < width d" and "0 < height d"
  shows "getCell d s (cx (normalized d c)) (cy (normalized d c)) = getCell d s (cx c) (cy c)"
  using assms
  by (simp add: getCell_def normalized_def getCellObj_def wrap_mod split: option.splits)

lemma in_range_normalized:
  assumes "0 < width d" and "0 < height d"
  shows "in_range d (normalized d c)"
  using assms by (simp add: normalized_def in_range_getCellObj)

text \<open>
  Writing a dead or alive value at \<open>[x][y]\<close> with \<open>x\<close> inside the grid: since no two
  columns share a row, the only in-range cell that reads differently afterwards is
  \<open>(x, y)\<close> itself.
\<close>

lemma write_cell:
  assumes wf: "wf_state d s" and x: "0 \<le> x" "x < width d" and v: "cell_value v"
    and s': "s' = s\<lparr>rows := (rows s)(grid s ! nat x := (rows s (grid s ! nat x))(y := v))\<rparr>"
  shows "wf_state d s'"
    and "in_range d p \<Longrightarrow>
           getCell d s' (cx p) (cy p)
             = (if p = Cell x y then Inr v else getCell d s (cx p) (cy p))"
proof -
  from wf have w: "0 < width d" and h: "0 < height d" and ok: "grid_ok d s"
    and len: "int (length (grid s)) = width d" and dist: "distinct (grid s)"
    by (simp_all add: wf_state_def)
  have g': "grid s' = grid s"
    by (simp add: s')
  have read: "getCell d s' (cx p) (cy p)
      = (if p = Cell x y then Inr v else getCell d s (cx p) (cy p))" if p: "in_range d p" for p
  proof -
    from p len x have "nat (cx p) < length (grid s)" and "nat x < length (grid s)"
      by (auto simp: in_range_def)
    with dist have "grid s ! nat (cx p) = grid s ! nat x \<longleftrightarrow> nat (cx p) = nat x"
      by (simp add: nth_eq_iff_index_eq)
    also have "\<dots> \<longleftrightarrow> cx p = x"
      using p x(1) by (auto simp: in_range_def)
    finally have same_row: "grid s ! nat (cx p) = grid s ! nat x \<longleftrightarrow> cx p = x" .
    have "getCell d s' (cx p) (cy p) = Inr (rows s' (grid s ! nat (cx p)) (cy p))"
      using getCell_in_range [OF w h _ p, of s'] len g' by simp
    also have "\<dots> = (if p = Cell x y then Inr v else Inr (rows s (grid s ! nat (cx p)) (cy p)))"
      using same_row by (cases p) (auto simp: s')
    also have "\<dots> = (if p = Cell x y then Inr v else getCell d s (cx p) (cy p))"
      using getCell_in_range [OF w h len p] by simp
    finally show ?thesis .
  qed
  then show "in_range d p \<Longrightarrow>
      getCell d s' (cx p) (cy p) = (if p = Cell x y then Inr v else getCell d s (cx p) (cy p))"
    by simp
  have "grid_ok d s'"
    unfolding grid_ok_iff
  proof (intro allI impI)
    fix p assume p: "in_range d p"
    from grid_ok_getCell [OF ok p] v read [OF p]
    show "\<exists>u. getCell d s' (cx p) (cy p) = Inr u \<and> cell_value u"
      by auto
  qed
  with w h len dist g' show "wf_state d s'"
    by (simp add: wf_state_def)
qed

text \<open>
  Whether a cell changes, in terms of the alive flag of the cell it reads and the
  number of its live neighbours.
\<close>

lemma changes_live_rule:
  assumes "wf_state d s"
  shows "changes d rules s c \<longleftrightarrow>
           live_rule (is_alive d s (normalized d c)) (live_neighbours d s c)
             \<noteq> is_alive d s (normalized d c)"
proof -
  from assms have w: "0 < width d" and h: "0 < height d" and ok: "grid_ok d s"
    by (simp_all add: wf_state_def)
  from grid_ok_getCell [OF ok in_range_normalized [OF w h, of c]]
  obtain old where old: "getCell d s (cx c) (cy c) = Inr old" and cv: "cell_value old"
    by (auto simp: getCell_normalized [OF w h])
  have alive: "is_alive d s (normalized d c) = truthy old"
    by (simp add: is_alive_def getCell_normalized [OF w h] old)
  let ?n = "int (live_neighbours d s c)"
  have n: "getNeighborCount d s (cx c) (cy c) = Inr (Num ?n)"
    by (simp add: getNeighborCount_alive [OF w h ok] live_neighbours_def)
  have "live_neighbours d s c \<le> 8"
    using length_filter_le [of "is_alive d s" "getNeighborCells d (cx c) (cy c)"]
    by (simp add: live_neighbours_def getNeighborCells_def)
  then have "0 \<le> ?n" and "?n \<le> 8"
    by simp_all
  from nextState_rules [OF this, of old]
  obtain new where new: "nextState rules old (Num ?n) = Inr new"
    and bit: "new = Num 0 \<or> new = Num 1"
    and rule: "truthy new \<longleftrightarrow> (if truthy old then ?n = 2 \<or> ?n = 3 else ?n = 3)"
    by blast
  from bit cv have "loose_eq new old \<longleftrightarrow> truthy new = truthy old"
    by (auto simp: loose_eq_def cell_value_def)
  with rule have "\<not> loose_eq new old \<longleftrightarrow>
      live_rule (truthy old) (live_neighbours d s c) \<noteq> truthy old"
    by (auto simp: live_rule_def)
  then show ?thesis
    by (simp add: changes_def old n new alive)
qed

text \<open>
  One visit on a well-formed state: it returns, the state stays well-formed, and the
  only cell whose alive flag can differ afterwards is the visited one, which flips
  when it changes. The flip is in the store that later visits read.
\<close>

lemma visit_in_place:
  assumes "wf_state d s" and "0 \<le> cx c" and "cx c < width d"
  shows "\<exists>s' nq'. visit d rules (grid s) (s, nq) c = Inr (s', nq') \<and> wf_state d s' \<and>
           grid s' = grid s \<and>
           (\<forall>p. in_range d p \<longrightarrow>
              is_alive d s' p
                = (if p = c \<and> changes d rules s c then \<not> is_alive d s p else is_alive d s p))"
proof -
  from assms(1) have w: "0 < width d" and h: "0 < height d" and ok: "grid_ok d s"
    and len: "int (length (grid s)) = width d" and dist: "distinct (grid s)"
    by (simp_all add: wf_state_def)
  from grid_ok_getCell [OF ok in_range_normalized [OF w h, of c]]
  obtain old where old: "getCell d s (cx c) (cy c) = Inr old" and cv: "cell_value old"
    by (auto simp: getCell_normalized [OF w h])
  let ?n = "int (live_neighbours d s c)"
  have n: "getNeighborCount d s (cx c) (cy c) = Inr (Num ?n)"
    by (simp add: getNeighborCount_alive [OF w h ok] live_neighbours_def)
  have "live_neighbours d s c \<le> 8"
    using length_filter_le [of "is_alive d s" "getNeighborCells d (cx c) (cy c)"]
    by (simp add: live_neighbours_def getNeighborCells_def)
  then have "0 \<le> ?n" and "?n \<le> 8"
    by simp_all
  from nextState_rules [OF this, of old]
  obtain new where new: "nextState rules old (Num ?n) = Inr new"
    and bit: "new = Num 0 \<or> new = Num 1"
    by blast
  have ch: "changes d rules s c \<longleftrightarrow> \<not> loose_eq new old"
    by (simp add: changes_def old n new)
  show ?thesis
  proof (cases "loose_eq new old")
    case True
    then have "visit d rules (grid s) (s, nq) c = Inr (s, nq)"
      by (simp add: visit_def old n new)
    with assms(1) ch True show ?thesis by simp
  next
    case False
    let ?r = "grid s ! nat (cx c)"
    let ?s' = "s\<lparr>rows := (rows s)(?r := (rows s ?r)(cy c := new))\<rparr>"
    have idx: "js_index (grid s) (cx c) = Some ?r"
      using assms(2,3) len by (simp add: js_index_def)
    then have v: "visit d rules (grid s) (s, nq) c
        = Inr (?s', nq @ getNeighborCells d (cx c) (cy c))"
      using False by (simp add: visit_def old n new setCellInGrid_def)
    have cvn: "cell_value new"
      using bit by (auto simp: cell_value_def)
    note written = write_cell [OF assms(1) assms(2,3) cvn, of ?s' "cy c"]
    have wf': "wf_state d ?s'"
      by (rule written(1)) simp
    have read: "getCell d ?s' (cx p) (cy p)
        = (if p = c then Inr new else getCell d s (cx p) (cy p))" if p: "in_range d p" for p
      using written(2) [OF _ p] by (cases c) simp
    have flip: "is_alive d ?s' p
        = (if p = c \<and> changes d rules s c then \<not> is_alive d s p else is_alive d s p)"
      if p: "in_range d p" for p
    proof (cases "p = c")
      case True
      with p have "normalized d c = c"
        by (simp add: normalized_in_range)
      then have "is_alive d s c = truthy old"
        using old by (simp add: is_alive_def)
      moreover from bit cv False have "truthy new \<longleftrightarrow> \<not> truthy old"
        by (auto simp: loose_eq_def cell_value_def)
      ultimately show ?thesis
        using True ch False read [OF p] by (simp add: is_alive_def)
    next
      case False
      with read [OF p] show ?thesis
        by (simp add: is_alive_def)
    qed
    from v wf' flip show ?thesis by simp
  qed
qed

text \<open>The loop on a well-formed state: cells outside the visited list keep their flag.\<close>

lemma forEach_in_place:
  assumes "wf_state d s" and "list_all (\<lambda>c. 0 \<le> cx c \<and> cx c < width d) cs"
  shows "\<exists>s' nq'. forEach d rules (grid s) (s, nq) cs = Inr (s', nq') \<and> wf_state d s' \<and>
           grid s' = grid s \<and>
           (\<forall>p. in_range d p \<and> p \<notin> set cs \<longrightarrow> is_alive d s' p = is_alive d s p)"
  using assms
proof (induction cs arbitrary: s nq)
  case Nil
  then show ?case by simp
next
  case (Cons c cs)
  from Cons.prems(2) have c: "0 \<le> cx c" "cx c < width d"
    and cs: "list_all (\<lambda>c. 0 \<le> cx c \<and> cx c < width d) cs"
    by simp_all
  from visit_in_place [OF Cons.prems(1) c, of nq]
  obtain s1 nq1 where v: "visit d rules (grid s) (s, nq) c = Inr (s1, nq1)"
    and wf1: "wf_state d s1" and g1: "grid s1 = grid s"
    and keep1: "\<forall>p. in_range d p \<longrightarrow> is_alive d s1 p
        = (if p = c \<and> changes d rules s c then \<not> is_alive d s p else is_alive d s p)"
    by blast
  from Cons.IH [OF wf1 cs, of nq1]
  obtain s' nq' where loop: "forEach d rules (grid s1) (s1, nq1) cs = Inr (s', nq')"
    and wf': "wf_state d s'" and g': "grid s' = grid s1"
    and keep: "\<forall>p. in_range d p \<and> p \<notin> set cs \<longrightarrow> is_alive d s' p = is_alive d s1 p"
    by blast
  from v loop g1 have "forEach d rules (grid s) (s, nq) (c # cs) = Inr (s', nq')"
    by simp
  moreover from keep keep1
  have "\<forall>p. in_range d p \<and> p \<notin> set (c # cs) \<longrightarrow> is_alive d s' p = is_alive d s p"
    by simp
  ultimately show ?case
    using wf' g' g1 by auto
qed

subsection \<open>Well-formed states are what the program reaches\<close>

lemma wf_initial_state:
  assumes "0 < width d" and "0 < height d" and "initial_state d = Inr s"
  shows "wf_state d s"
proof -
  let ?g = "replicate (nat (width d)) (replicate (nat (height d)) (Num 0))"
  from assms(3) have s: "s = state_of ?g []"
    by (simp add: initial_state_def state_of_def makeGrid_eq)
  have "getCell d s (cx p) (cy p) = Inr (Num 0)" if "in_range d p" for p
    using that assms(1,2)
    by (simp add: s state_of_def getCell_def wrap_mod in_range_def js_index_def
        store_rows_def row_of_def)
  then have "grid_ok d s"
    by (simp add: grid_ok_iff cell_value_def)
  with assms(1,2) show ?thesis
    by (simp add: wf_state_def s state_of_def)
qed

lemma wf_toggleCell:
  assumes "wf_state d s" and "toggleCell s x y = Inr s'"
  shows "wf_state d s'"
proof -
  from assms(1) have len: "int (length (grid s)) = width d"
    by (simp add: wf_state_def)
  from assms(2) have x: "0 \<le> x" "x < width d"
    and s': "s' = s\<lparr>rows := (rows s)(grid s ! nat x :=
        (rows s (grid s ! nat x))(y := js_not (rows s (grid s ! nat x) y)))\<rparr>"
    using len by (auto simp: toggleCell_def js_index_def split: if_splits)
  have "cell_value (js_not (rows s (grid s ! nat x) y))"
    by (simp add: js_not_def cell_value_def)
  from write_cell(1) [OF assms(1) x this s'] show ?thesis .
qed

lemma wf_updateCells:
  assumes "wf_state d s" and "list_all (\<lambda>c. 0 \<le> cx c \<and> cx c < width d) (queue s)"
  shows "\<exists>s'. updateCells d rules s = Inr s' \<and> wf_state d s'"
proof -
  from forEach_in_place [OF assms, of "[]"]
  obtain sF nqF where run: "forEach d rules (grid s) (s, []) (queue s) = Inr (sF, nqF)"
    and wfF: "wf_state d sF" and g: "grid sF = grid s"
    by blast
  let ?s' = "sF\<lparr>queue := cleanQueue nqF, grid := slice (grid s)\<rparr>"
  have "getCell d ?s' x y = getCell d sF x y" for x y
    by (rule getCell_same_store) (simp_all add: slice_def g)
  then have "grid_ok d ?s' = grid_ok d sF"
    by (simp add: grid_ok_def)
  with wfF have "wf_state d ?s'"
    by (simp add: wf_state_def slice_def g)
  with run show ?thesis
    by (simp add: updateCells_def slice_def)
qed

text \<open>
  The state in which the loop reaches a cell \<open>c\<close> of a duplicate-free queue: the cells
  queued before \<open>c\<close> already show their final flag, all others still their first one;
  and \<open>c\<close> ends flipped exactly when it changes in that state.
\<close>

lemma forEach_split_state:
  assumes wf: "wf_state d s"
    and xr: "list_all (\<lambda>c. 0 \<le> cx c \<and> cx c < width d) (A @ c # B)"
    and dist: "distinct (A @ c # B)"
    and run: "forEach d rules (grid s) (s, []) (A @ c # B) = Inr (sF, nqF)"
  shows "\<exists>sA. wf_state d sA \<and>
           (\<forall>p. in_range d p \<longrightarrow>
              is_alive d sA p = (if p \<in> set A then is_alive d sF p else is_alive d s p)) \<and>
           (in_range d c \<longrightarrow>
              is_alive d sF c
                = (if changes d rules sA c then \<not> is_alive d s c else is_alive d s c))"
proof -
  from xr have xA: "list_all (\<lambda>c. 0 \<le> cx c \<and> cx c < width d) A"
    and xc: "0 \<le> cx c" "cx c < width d"
    and xB: "list_all (\<lambda>c. 0 \<le> cx c \<and> cx c < width d) B"
    by simp_all
  from forEach_in_place [OF wf xA, of "[]"]
  obtain sA nqA where runA: "forEach d rules (grid s) (s, []) A = Inr (sA, nqA)"
    and wfA: "wf_state d sA" and gA: "grid sA = grid s"
    and keepA: "\<forall>p. in_range d p \<and> p \<notin> set A \<longrightarrow> is_alive d sA p = is_alive d s p"
    by blast
  from visit_in_place [OF wfA xc, of nqA]
  obtain s1 nq1 where v: "visit d rules (grid sA) (sA, nqA) c = Inr (s1, nq1)"
    and wf1: "wf_state d s1" and g1: "grid s1 = grid sA"
    and flip: "\<forall>p. in_range d p \<longrightarrow> is_alive d s1 p
        = (if p = c \<and> changes d rules sA c then \<not> is_alive d sA p else is_alive d sA p)"
    by blast
  from forEach_in_place [OF wf1 xB, of nq1]
  obtain sB nqB where runB: "forEach d rules (grid s1) (s1, nq1) B = Inr (sB, nqB)"
    and keepB: "\<forall>p. in_range d p \<and> p \<notin> set B \<longrightarrow> is_alive d sB p = is_alive d s1 p"
    by blast
  from runA v runB gA g1 have "forEach d rules (grid s) (s, []) (A @ c # B) = Inr (sB, nqB)"
    by (simp add: forEach_append)
  with run have sF: "sF = sB"
    by simp
  have before: "is_alive d sA p = (if p \<in> set A then is_alive d sF p else is_alive d s p)"
    if p: "in_range d p" for p
  proof (cases "p \<in> set A")
    case True
    with dist have "p \<noteq> c" and "p \<notin> set B"
      by auto
    with p keepB flip True show ?thesis
      by (simp add: sF)
  next
    case False
    with p keepA show ?thesis by simp
  qed
  have at_c: "is_alive d sF c
      = (if changes d rules sA c then \<not> is_alive d s c else is_alive d s c)"
    if c: "in_range d c"
  proof -
    from dist have "c \<notin> set A" and "c \<notin> set B"
      by auto
    with c keepA keepB flip show ?thesis
      by (simp add: sF)
  qed
  from wfA before at_c show ?thesis by blast
qed

lemma is_alive_state_of: "is_alive d (state_of g q) p = is_alive d (state_of g []) p"
  by (rule is_alive_same_store) (simp_all add: state_of_def)

lemma wf_state_state_of: "wf_state d (state_of g q) = wf_state d (state_of g [])"
proof -
  have "getCell d (state_of g q) x y = getCell d (state_of g []) x y" for x y
    by (rule getCell_same_store) (simp_all add: state_of_def)
  then have "grid_ok d (state_of g q) = grid_ok d (state_of g [])"
    by (simp add: grid_ok_def)
  then show ?thesis
    by (simp add: wf_state_def state_of_def)
qed

lemma alive_cells_iff:
  "p \<in> set (alive_cells d s) \<longleftrightarrow> in_range d p \<and> is_alive d s p"
  by (simp add: alive_cells_def set_all_cells)

text \<open>
  On a well-formed state the step returns, and the cells alive after it are those
  alive after the loop.
\<close>

lemma alive_after_forEach:
  assumes "wf_state d s" and "list_all (\<lambda>c. 0 \<le> cx c \<and> cx c < width d) (queue s)"
  shows "\<exists>sF nqF. forEach d rules (grid s) (s, []) (queue s) = Inr (sF, nqF) \<and>
           alive_after d rules s = Inr (alive_cells d sF) \<and>
           (\<forall>p. in_range d p \<and> p \<notin> set (queue s) \<longrightarrow> is_alive d sF p = is_alive d s p)"
proof -
  from forEach_in_place [OF assms, of "[]"]
  obtain sF nqF where run: "forEach d rules (grid s) (s, []) (queue s) = Inr (sF, nqF)"
    and g: "grid sF = grid s"
    and keep: "\<forall>p. in_range d p \<and> p \<notin> set (queue s) \<longrightarrow> is_alive d sF p = is_alive d s p"
    by blast
  have "is_alive d (sF\<lparr>queue := cleanQueue nqF, grid := slice (grid s)\<rparr>) p = is_alive d sF p"
    for p
    by (rule is_alive_same_store) (simp_all add: slice_def g)
  then have "is_alive d (sF\<lparr>queue := cleanQueue nqF, grid := slice (grid s)\<rparr>) = is_alive d sF"
    by (simp add: fun_eq_iff)
  then have "alive_cells d (sF\<lparr>queue := cleanQueue nqF, grid := slice (grid s)\<rparr>)
      = alive_cells d sF"
    by (simp add: alive_cells_def)
  with run have "alive_after d rules s = Inr (alive_cells d sF)"
    by (simp add: alive_after_def updateCells_def slice_def)
  with run keep show ?thesis by blast
qed

section \<open>States built by clicks\<close>

lemma row_of_Nil: "row_of [] j = Undefined"
  by (auto simp: row_of_def js_index_def)

lemma row_of_Cons: "row_of (v # vs) j = (if j = 0 then v else row_of vs (j - 1))"
  by (auto simp: row_of_def js_index_def nth_Cons' nat_diff_distrib)

lemma store_rows_Nil: "store_rows [] r = (\<lambda>j. Undefined)"
  by (simp add: store_rows_def)

lemma store_rows_Cons: "store_rows (g # gs) r = (if r = 0 then row_of g else store_rows gs (r - 1))"
  by (auto simp: store_rows_def nth_Cons')

lemma makeGrid5: "makeGrid 5 5 = [[Num 0, Num 0, Num 0, Num 0, Num 0],
      [Num 0, Num 0, Num 0, Num 0, Num 0],
      [Num 0, Num 0, Num 0, Num 0, Num 0],
      [Num 0, Num 0, Num 0, Num 0, Num 0],
      [Num 0, Num 0, Num 0, Num 0, Num 0]]"
  by (simp add: makeGrid_eq eval_nat_numeral)

lemma session_blinker:
  "session dims5 [Cell 1 2, Cell 2 2, Cell 3 2]
     = Inr (state_of blinker_grid [Cell 1 2, Cell 2 2, Cell 3 2])"
  by (simp add: session_def initial_state_def makeGrid5 dims5_def mousedown_def toggleCell_def
      addCellToQueue_def js_index_def js_not_def state_of_def blinker_grid_def
      store_rows_Cons store_rows_Nil row_of_Cons row_of_Nil fun_eq_iff)

lemma session_blinker_other:
  "session dims5 [Cell 2 2, Cell 1 2, Cell 3 2]
     = Inr (state_of blinker_grid [Cell 2 2, Cell 1 2, Cell 3 2])"
  by (simp add: session_def initial_state_def makeGrid5 dims5_def mousedown_def toggleCell_def
      addCellToQueue_def js_index_def js_not_def state_of_def blinker_grid_def
      store_rows_Cons store_rows_Nil row_of_Cons row_of_Nil fun_eq_iff)
section \<open>The step reads the grid it is writing\<close>

text \<open>
  C1 at a concrete input. On the 5 by 5 grid, clicks on (1,2), (2,2), (3,2) and clicks
  on (2,2), (1,2), (3,2) build the same grid, with these three cells alive, and queues
  that are permutations of each other. At the start of the step (2,2) has two live
  neighbours, so against the grid of the start of the step it survives wherever it
  stands in the queue. After the first clicks the step leaves no cell alive: (1,2) is
  written dead into the row shared by \<open>grid\<close> and \<open>nextGrid\<close>, and (2,2) is then
  counted with one live neighbour. After the second clicks (2,2) is visited first and
  survives. The result depends on the order of the queue.
\<close>

theorem updateCells_order_dependent:
  "session dims5 [Cell 1 2, Cell 2 2, Cell 3 2]
     = Inr (state_of blinker_grid [Cell 1 2, Cell 2 2, Cell 3 2]) \<and>
   session dims5 [Cell 2 2, Cell 1 2, Cell 3 2]
     = Inr (state_of blinker_grid [Cell 2 2, Cell 1 2, Cell 3 2]) \<and>
   alive_cells dims5 (state_of blinker_grid [Cell 1 2, Cell 2 2, Cell 3 2])
     = [Cell 1 2, Cell 2 2, Cell 3 2] \<and>
   getNeighborCount dims5 (state_of blinker_grid [Cell 1 2, Cell 2 2, Cell 3 2]) 2 2
     = Inr (Num 2) \<and>
   nextState rules (Bool True) (Num 2) = Inr (Num 1) \<and>
   alive_after dims5 rules (state_of blinker_grid [Cell 1 2, Cell 2 2, Cell 3 2]) = Inr [] \<and>
   alive_after dims5 rules (state_of blinker_grid [Cell 2 2, Cell 1 2, Cell 3 2])
     = Inr [Cell 2 2]"
proof -
  have "alive_cells dims5 (state_of blinker_grid [Cell 1 2, Cell 2 2, Cell 3 2])
     = [Cell 1 2, Cell 2 2, Cell 3 2]"
    by code_simp
  moreover have "getNeighborCount dims5 (state_of blinker_grid [Cell 1 2, Cell 2 2, Cell 3 2]) 2 2
     = Inr (Num 2)"
    by code_simp
  moreover have "nextState rules (Bool True) (Num 2) = Inr (Num 1)"
    by code_simp
  moreover have "alive_after dims5 rules (state_of blinker_grid [Cell 1 2, Cell 2 2, Cell 3 2])
     = Inr []"
    by code_simp
  moreover have "alive_after dims5 rules (state_of blinker_grid [Cell 2 2, Cell 1 2, Cell 3 2])
     = Inr [Cell 2 2]"
    by code_simp
  ultimately show ?thesis
    using session_blinker session_blinker_other by blast
qed

text \<open>
  C2 at its input. On the 5 by 5 grid with (1,2), (2,2), (3,2) alive and the queue
  holding these three cells and then their twelve neighbours, one step with the
  default rule table returns normally and leaves no cell alive, not the cells (2,1),
  (2,2), (2,3): each of the three dies in turn, seeing the deaths before it, and no
  neighbour is born afterwards. With the same queue reversed, five cells are alive.
\<close>

theorem blinker_step:
  "alive_cells dims5 (state_of blinker_grid blinker_queue) = [Cell 1 2, Cell 2 2, Cell 3 2] \<and>
   alive_after dims5 rules (state_of blinker_grid blinker_queue) = Inr [] \<and>
   alive_after dims5 rules (state_of blinker_grid (rev blinker_queue))
     = Inr [Cell 1 1, Cell 1 2, Cell 2 1, Cell 2 3, Cell 3 2]"
proof -
  have "alive_cells dims5 (state_of blinker_grid blinker_queue)
     = [Cell 1 2, Cell 2 2, Cell 3 2]"
    by code_simp
  moreover have "alive_after dims5 rules (state_of blinker_grid blinker_queue) = Inr []"
    by code_simp
  moreover have "alive_after dims5 rules (state_of blinker_grid (rev blinker_queue))
     = Inr [Cell 1 1, Cell 1 2, Cell 2 1, Cell 2 3, Cell 3 2]"
    by code_simp
  ultimately show ?thesis by blast
qed

text \<open>
  No order of the queue helps. From the three live cells (1,2), (2,2), (3,2), a step
  over any duplicate-free queue of in-range cells does not end in the live cells
  (2,1), (2,2), (2,3): the births of (2,1) and (2,3) need (1,2) still alive when they
  are visited, so (1,2) is visited after both, finds them alive beside (2,2), counts
  three live neighbours and survives.
\<close>

lemma blinker_never_vertical:
  assumes dist: "distinct q" and rng: "list_all (in_range dims5) q"
  shows "alive_after dims5 rules (state_of blinker_grid q)
           \<noteq> Inr [Cell 2 1, Cell 2 2, Cell 2 3]"
proof
  define s0 where "s0 = state_of blinker_grid q"
  assume "alive_after dims5 rules (state_of blinker_grid q) = Inr [Cell 2 1, Cell 2 2, Cell 2 3]"
  then have goal: "alive_after dims5 rules s0 = Inr [Cell 2 1, Cell 2 2, Cell 2 3]"
    by (simp add: s0_def)
  have "wf_state dims5 (state_of blinker_grid [])"
    by code_simp
  then have wf: "wf_state dims5 s0"
    by (simp only: s0_def wf_state_state_of [of dims5 blinker_grid q])
  have q: "queue s0 = q"
    by (simp add: s0_def state_of_def)
  from rng have xr: "list_all (\<lambda>c. 0 \<le> cx c \<and> cx c < width dims5) q"
    by (simp add: list_all_iff in_range_def)
  have r: "in_range dims5 (Cell x y) \<longleftrightarrow> 0 \<le> x \<and> x < 5 \<and> 0 \<le> y \<and> y < 5" for x y
    by (simp add: in_range_def dims5_def)
  have "alive_cells dims5 (state_of blinker_grid []) = [Cell 1 2, Cell 2 2, Cell 3 2]"
    by code_simp
  then have "Cell x y \<in> set (alive_cells dims5 (state_of blinker_grid []))
      \<longleftrightarrow> (x = 1 \<or> x = 2 \<or> x = 3) \<and> y = 2" for x y
    by auto
  then have "in_range dims5 (Cell x y) \<and> is_alive dims5 (state_of blinker_grid []) (Cell x y)
      \<longleftrightarrow> (x = 1 \<or> x = 2 \<or> x = 3) \<and> y = 2" for x y
    by (simp add: alive_cells_iff)
  then have first: "is_alive dims5 s0 (Cell x y) \<longleftrightarrow> (x = 1 \<or> x = 2 \<or> x = 3) \<and> y = 2"
    if "in_range dims5 (Cell x y)" for x y
    unfolding s0_def using that is_alive_state_of [of dims5 blinker_grid q "Cell x y"] by blast
  from alive_after_forEach [OF wf] xr q
  obtain sF nqF where run: "forEach dims5 rules (grid s0) (s0, []) q = Inr (sF, nqF)"
    and after: "alive_after dims5 rules s0 = Inr (alive_cells dims5 sF)"
    and keep: "\<forall>p. in_range dims5 p \<and> p \<notin> set q \<longrightarrow> is_alive dims5 sF p = is_alive dims5 s0 p"
    by auto
  from goal after have "alive_cells dims5 sF = [Cell 2 1, Cell 2 2, Cell 2 3]"
    by simp
  then have "Cell x y \<in> set (alive_cells dims5 sF) \<longleftrightarrow> x = 2 \<and> (y = 1 \<or> y = 2 \<or> y = 3)"
    for x y
    by auto
  then have "in_range dims5 (Cell x y) \<and> is_alive dims5 sF (Cell x y)
      \<longleftrightarrow> x = 2 \<and> (y = 1 \<or> y = 2 \<or> y = 3)" for x y
    by (simp add: alive_cells_iff)
  then have last: "is_alive dims5 sF (Cell x y) \<longleftrightarrow> x = 2 \<and> (y = 1 \<or> y = 2 \<or> y = 3)"
    if "in_range dims5 (Cell x y)" for x y
    using that by blast
  have queued: "Cell x y \<in> set q"
    if "in_range dims5 (Cell x y)"
      and "is_alive dims5 sF (Cell x y) \<noteq> is_alive dims5 s0 (Cell x y)" for x y
    using that keep by blast
  have in_q: "Cell 1 2 \<in> set q" "Cell 2 1 \<in> set q" "Cell 2 3 \<in> set q"
    by (rule queued; simp add: r first last)+
  have nb21: "getNeighborCells dims5 2 1 =
      [Cell 3 1, Cell 3 2, Cell 2 2, Cell 1 2, Cell 1 1, Cell 1 0, Cell 2 0, Cell 3 0]"
    by code_simp
  have nb23: "getNeighborCells dims5 2 3 =
      [Cell 3 3, Cell 3 4, Cell 2 4, Cell 1 4, Cell 1 3, Cell 1 2, Cell 2 2, Cell 3 2]"
    by code_simp
  have nb12: "getNeighborCells dims5 1 2 =
      [Cell 2 2, Cell 2 3, Cell 1 3, Cell 0 3, Cell 0 2, Cell 0 1, Cell 1 1, Cell 2 1]"
    by code_simp
  have reach: "\<exists>sA. wf_state dims5 sA \<and>
      (\<forall>x y. 0 \<le> x \<and> x < 5 \<and> 0 \<le> y \<and> y < 5 \<longrightarrow>
         is_alive dims5 sA (Cell x y)
           = (if Cell x y \<in> set A then x = 2 \<and> (y = 1 \<or> y = 2 \<or> y = 3)
              else (x = 1 \<or> x = 2 \<or> x = 3) \<and> y = 2)) \<and>
      (in_range dims5 c \<longrightarrow>
         changes dims5 rules sA c = (is_alive dims5 sF c \<noteq> is_alive dims5 s0 c))"
    if split: "q = A @ c # B" for A c B
  proof -
    from forEach_split_state [OF wf xr [unfolded split] dist [unfolded split] run [unfolded split]]
    obtain sA where wfA: "wf_state dims5 sA"
      and before: "\<forall>p. in_range dims5 p \<longrightarrow>
          is_alive dims5 sA p = (if p \<in> set A then is_alive dims5 sF p else is_alive dims5 s0 p)"
      and at_c: "in_range dims5 c \<longrightarrow> is_alive dims5 sF c
          = (if changes dims5 rules sA c then \<not> is_alive dims5 s0 c else is_alive dims5 s0 c)"
      by blast
    have "is_alive dims5 sA (Cell x y)
           = (if Cell x y \<in> set A then x = 2 \<and> (y = 1 \<or> y = 2 \<or> y = 3)
              else (x = 1 \<or> x = 2 \<or> x = 3) \<and> y = 2)"
      if "0 \<le> x \<and> x < 5 \<and> 0 \<le> y \<and> y < 5" for x y
    proof -
      from that have "in_range dims5 (Cell x y)"
        by (simp add: r)
      with before first last show ?thesis
        by simp
    qed
    moreover from at_c
    have "in_range dims5 c \<longrightarrow>
        changes dims5 rules sA c = (is_alive dims5 sF c \<noteq> is_alive dims5 s0 c)"
      by (cases "changes dims5 rules sA c") simp_all
    ultimately show ?thesis
      using wfA by blast
  qed
  have born: "Cell 1 2 \<notin> set A"
    if split: "q = A @ c # B" and c: "c = Cell 2 1 \<or> c = Cell 2 3" for A B c
  proof -
    from reach [OF split] obtain sA where wfA: "wf_state dims5 sA"
      and at: "\<And>x y. 0 \<le> x \<and> x < 5 \<and> 0 \<le> y \<and> y < 5 \<Longrightarrow>
         is_alive dims5 sA (Cell x y)
           = (if Cell x y \<in> set A then x = 2 \<and> (y = 1 \<or> y = 2 \<or> y = 3)
              else (x = 1 \<or> x = 2 \<or> x = 3) \<and> y = 2)"
      and ch: "in_range dims5 c \<longrightarrow>
         changes dims5 rules sA c = (is_alive dims5 sF c \<noteq> is_alive dims5 s0 c)"
      by blast
    from dist split have notA: "c \<notin> set A"
      by auto
    from c show ?thesis
    proof
      assume c21: "c = Cell 2 1"
      have n: "live_neighbours dims5 sA (Cell 2 1)
          = (if Cell 3 2 \<in> set A then 0 else 1) + 1 + (if Cell 1 2 \<in> set A then 0 else 1)"
        by (simp add: live_neighbours_def nb21 at)
      from notA c21 have dead: "\<not> is_alive dims5 sA (Cell 2 1)"
        by (simp add: at)
      from ch c21 have "changes dims5 rules sA (Cell 2 1)"
        by (simp add: r first last)
      with dead have "live_neighbours dims5 sA (Cell 2 1) = 3"
        by (simp add: changes_live_rule [OF wfA] normalized_in_range r live_rule_def)
      with n show ?thesis
        by (simp split: if_splits)
    next
      assume c23: "c = Cell 2 3"
      have n: "live_neighbours dims5 sA (Cell 2 3)
          = (if Cell 1 2 \<in> set A then 0 else 1) + 1 + (if Cell 3 2 \<in> set A then 0 else 1)"
        by (simp add: live_neighbours_def nb23 at)
      from notA c23 have dead: "\<not> is_alive dims5 sA (Cell 2 3)"
        by (simp add: at)
      from ch c23 have "changes dims5 rules sA (Cell 2 3)"
        by (simp add: r first last)
      with dead have "live_neighbours dims5 sA (Cell 2 3) = 3"
        by (simp add: changes_live_rule [OF wfA] normalized_in_range r live_rule_def)
      with n show ?thesis
        by (simp split: if_splits)
    qed
  qed
  from in_q(1) obtain A B where split: "q = A @ Cell 1 2 # B"
    by (auto dest: split_list)
  have earlier: "c \<in> set A" if c: "c = Cell 2 1 \<or> c = Cell 2 3" for c
  proof (rule ccontr)
    assume "c \<notin> set A"
    with c in_q split have "c \<in> set B"
      by auto
    then obtain B1 B2 where "B = B1 @ c # B2"
      by (auto dest: split_list)
    with split have "q = (A @ Cell 1 2 # B1) @ c # B2"
      by simp
    from born [OF this c] show False by simp
  qed
  from reach [OF split] obtain sA where wfA: "wf_state dims5 sA"
    and at: "\<And>x y. 0 \<le> x \<and> x < 5 \<and> 0 \<le> y \<and> y < 5 \<Longrightarrow>
       is_alive dims5 sA (Cell x y)
         = (if Cell x y \<in> set A then x = 2 \<and> (y = 1 \<or> y = 2 \<or> y = 3)
            else (x = 1 \<or> x = 2 \<or> x = 3) \<and> y = 2)"
    and ch: "in_range dims5 (Cell 1 2) \<longrightarrow>
       changes dims5 rules sA (Cell 1 2)
         = (is_alive dims5 sF (Cell 1 2) \<noteq> is_alive dims5 s0 (Cell 1 2))"
    by blast
  from dist split have "Cell 1 2 \<notin> set A"
    by auto
  then have alive12: "is_alive dims5 sA (Cell 1 2)"
    by (simp add: at)
  have "live_neighbours dims5 sA (Cell 1 2) = 3"
    using earlier [of "Cell 2 1"] earlier [of "Cell 2 3"]
    by (simp add: live_neighbours_def nb12 at)
  with alive12 have "\<not> changes dims5 rules sA (Cell 1 2)"
    by (simp add: changes_live_rule [OF wfA] normalized_in_range r live_rule_def)
  with ch show False
    by (simp add: r first last)
qed

end
